theory Spec2Isabelle
  imports Main "HOL-Library.Word"
begin

unbundle bit_operations_syntax

section \<open>Shared types\<close>

type_synonym byte = "8 word"
type_synonym u32 = "32 word"

text \<open>
  Exceptions that leave a function of the source: a failed \<open>assert\<close>, a property read on
  \<open>undefined\<close> (\<open>this.pending[0]\<close> when the queue is empty), and a read past the end of a
  buffer.
\<close>

datatype fault = AssertionError | TypeError | RangeError

section \<open>lib/protocol/consensus.js\<close>

subsection \<open>Constants\<close>

definition COIN :: int where
  "COIN = 100000000"

definition MAX_MONEY :: int where
  "MAX_MONEY = 115000000 * COIN"

definition VERSION_TOP_BITS :: u32 where
  "VERSION_TOP_BITS = 0x20000000"

definition VERSION_TOP_MASK :: u32 where
  "VERSION_TOP_MASK = 0xe0000000"

subsection \<open>getReward\<close>

text \<open>
  \<open>getReward(height, interval)\<close>: the assertion, then a chain of independent
  \<open>if\<close> statements, each of which may overwrite \<open>subsidy\<close>; the last band that matches
  wins. Heights are integers here; every product with \<open>COIN\<close> is below \<open>2^53\<close>, so the
  source's doubles hold them exactly. The second parameter is declared and never read;
  it may be any value.
\<close>

definition getReward :: "int \<Rightarrow> 'a \<Rightarrow> fault + int" where
  "getReward height interval =
    (if \<not> height \<ge> 0 then Inl AssertionError
     else
       let subsidy = 0 * COIN;
           subsidy = (if height < 2 then 12226641 * COIN else subsidy);
           subsidy = (if height \<le> 6765 \<and> height > 1 then 1 * COIN else subsidy);
           subsidy = (if height \<le> 10946 \<and> height > 6765 then 1 * COIN else subsidy);
           subsidy = (if height \<le> 17711 \<and> height > 10946 then 2 * COIN else subsidy);
           subsidy = (if height \<le> 28657 \<and> height > 17711 then 3 * COIN else subsidy);
           subsidy = (if height \<le> 46368 \<and> height > 28657 then 5 * COIN else subsidy);
           subsidy = (if height \<le> 75025 \<and> height > 46368 then 8 * COIN else subsidy);
           subsidy = (if height \<le> 121393 \<and> height > 75025 then 13 * COIN else subsidy);
           subsidy = (if height \<le> 196418 \<and> height > 121393 then 21 * COIN else subsidy);
           subsidy = (if height \<le> 317811 \<and> height > 196148 then 34 * COIN else subsidy);
           subsidy = (if height \<le> 514229 \<and> height > 317811 then 55 * COIN else subsidy);
           subsidy = (if height \<le> 832040 \<and> height > 514229 then 34 * COIN else subsidy);
           subsidy = (if height \<le> 1346269 \<and> height > 832040 then 21 * COIN else subsidy);
           subsidy = (if height \<le> 2178309 \<and> height > 1346269 then 13 * COIN else subsidy);
           subsidy = (if height \<le> 3524578 \<and> height > 2178309 then 8 * COIN else subsidy);
           subsidy = (if height \<le> 5702887 \<and> height > 3524578 then 5 * COIN else subsidy);
           subsidy = (if height \<le> 9227465 \<and> height > 5702887 then 3 * COIN else subsidy);
           subsidy = (if height \<le> 14930352 \<and> height > 9227465 then 2 * COIN else subsidy);
           subsidy = (if height \<le> 24157817 \<and> height > 14930352 then 1 * COIN else subsidy)
       in Inr subsidy)"

subsection \<open>hasBit\<close>

text \<open>
  \<open>hasBit(version, bit)\<close>. The bitwise operators work on the 32-bit pattern of
  \<open>version\<close>; \<open>1 << bit\<close> uses the shift count modulo 32.
\<close>

definition hasBit :: "u32 \<Rightarrow> nat \<Rightarrow> bool" where
  "hasBit version b =
    (let TOP_MASK = VERSION_TOP_MASK;
         TOP_BITS = VERSION_TOP_BITS;
         bits = version AND TOP_MASK;
         mask = push_bit (b mod 32) (1 :: u32)
     in bits = TOP_BITS \<and> (version AND mask) \<noteq> 0)"

subsection \<open>Big numbers\<close>

text \<open>
  \<open>lib/crypto/bn\<close> (the \<open>bn.js\<close> big-number class) is not among the sources. A \<open>BN\<close>
  value is an \<open>int\<close> here: \<open>isZero\<close> is \<open>= 0\<close>, \<open>isNeg\<close> is \<open>< 0\<close>, \<open>gt\<close> is
  \<open>>\<close>, \<open>ineg\<close> is unary minus, \<open>iushln n\<close> is \<open>push_bit n\<close>. The operations that
  have no counterpart on \<open>int\<close> are written out below.
\<close>

text \<open>
  Modelled from the spec: \<open>BN.byteLength\<close>, of the absent \<open>lib/crypto/bn\<close>: "the byte
  length of \<open>|num|\<close>", the number of base-256 digits of the magnitude (0 for zero).
\<close>

fun byteLength_nat :: "nat \<Rightarrow> nat" where
  "byteLength_nat n = (if n = 0 then 0 else Suc (byteLength_nat (n div 256)))"

declare byteLength_nat.simps [simp del]

definition byteLength :: "int \<Rightarrow> nat" where
  "byteLength num = byteLength_nat (nat \<bar>num\<bar>)"

text \<open>
  Modelled from the spec: \<open>BN.ushrn\<close>, of the absent \<open>lib/crypto/bn\<close>: a right shift
  of the magnitude that keeps the sign ("\<open>|num| >> 8\<cdot>(e\<minus>3)\<close> (truncating)").
\<close>

definition ushrn :: "int \<Rightarrow> nat \<Rightarrow> int" where
  "ushrn num n = sgn num * drop_bit n \<bar>num\<bar>"

text \<open>
  Modelled from the spec: \<open>new BN(hash, 'le')\<close>, of the absent \<open>lib/crypto/bn\<close>: the
  bytes read "as a little-endian non-negative 256-bit integer", first byte least
  significant.
\<close>

fun fromBytesLE :: "byte list \<Rightarrow> int" where
  "fromBytesLE [] = 0"
| "fromBytesLE (b # bs) = uint b + 256 * fromBytesLE bs"

subsection \<open>fromCompact and toCompact\<close>

text \<open>
  \<open>fromCompact(compact)\<close> for a 32-bit unsigned \<open>compact\<close>. The shift
  \<open>8 * (3 - exponent)\<close> is taken only for \<open>exponent \<le> 3\<close>, so it is at most 24.
\<close>

definition fromCompact :: "u32 \<Rightarrow> int" where
  "fromCompact compact =
    (if compact = 0 then 0
     else
       let exponent = unat (drop_bit 24 compact);
           negative = drop_bit 23 compact AND 1;
           mantissa = compact AND 0x7fffff;
           num = (if exponent \<le> 3
                  then uint (drop_bit (8 * (3 - exponent)) mantissa)
                  else push_bit (8 * (exponent - 3)) (uint mantissa))
       in if negative \<noteq> 0 then - num else num)"

text \<open>
  \<open>toCompact(num)\<close>. \<open>mantissa\<close> is a JavaScript number on which only 32-bit
  operators act, so it is held as its 32-bit pattern: \<open>toNumber\<close> followed by a
  bitwise operator is \<open>word_of_int\<close>, \<open><<=\<close> is \<open>push_bit\<close>, the signed \<open>>>=\<close> is
  \<open>signed_drop_bit\<close>, and the final \<open>>>>= 0\<close> reads the pattern as unsigned.
\<close>

definition toCompact :: "int \<Rightarrow> u32" where
  "toCompact num =
    (if num = 0 then 0
     else
       let exponent = byteLength num;
           mantissa = (if exponent \<le> 3
                       then push_bit (8 * (3 - exponent)) (word_of_int num :: u32)
                       else word_of_int (ushrn num (8 * (exponent - 3))));
           (mantissa, exponent) =
              (if mantissa AND 0x800000 \<noteq> 0
               then (signed_drop_bit 8 mantissa, exponent + 1)
               else (mantissa, exponent));
           compact = push_bit 24 (word_of_nat exponent) OR mantissa;
           compact = (if num < 0 then compact OR 0x800000 else compact)
       in compact)"

subsection \<open>verifyPOW\<close>

text \<open>
  The network descriptor (\<open>lib/protocol/network\<close>, absent) with the fields the sources
  read, and a block with the answer of its \<open>hasNewPowVersion()\<close> method.
\<close>

record network =
  magic :: u32
  pow_limit :: int
  keccakPow_limit :: int

record block =
  hasNewPowVersion :: bool

text \<open>
  \<open>verifyPOW(network, block, hash, bits)\<close>. \<open>powLimit\<close> is bound and not used again.
  The \<open>console.log\<close> of the rejecting branch is not part of the returned value.
\<close>

definition verifyPOW :: "network \<Rightarrow> block \<Rightarrow> byte list \<Rightarrow> u32 \<Rightarrow> bool" where
  "verifyPOW network block hash bits =
    (let target = fromCompact bits;
         powLimit = (if hasNewPowVersion block then keccakPow_limit network
                     else pow_limit network)
     in if target < 0 \<or> target = 0 then False
        else
          let num = fromBytesLE hash
          in if num > target then False else True)"

section \<open>lib/net/parser.js\<close>

subsection \<open>What the parser takes from other modules\<close>

text \<open>
  \<open>common.MAX_MESSAGE\<close>, \<open>digest.hash256\<close> and \<open>packets.fromRaw\<close> belong to modules
  that are not among the sources; they are parameters of the model. \<open>fromRaw\<close> either
  throws (\<open>Inl\<close>) or returns the decoded packet (\<open>Inr\<close>).
\<close>

record ('e, 'p) deps =
  MAX_MESSAGE :: nat
  hash256 :: "byte list \<Rightarrow> byte list"
  fromRaw :: "string \<Rightarrow> byte list \<Rightarrow> 'e + 'p"

text \<open>
  \<open>Buffer.readUInt32LE(offset, true)\<close>. On a buffer that is too short the answer
  depends on the platform (a \<open>RangeError\<close> where \<open>noAssert\<close> is ignored, a meaningless
  number where it is honoured); the model stops with the \<open>RangeError\<close>.
\<close>

definition readUInt32LE :: "byte list \<Rightarrow> nat \<Rightarrow> fault + u32" where
  "readUInt32LE data off =
    (if off + 4 \<le> length data
     then Inr (ucast (data ! off) OR push_bit 8 (ucast (data ! (off + 1)))
               OR push_bit 16 (ucast (data ! (off + 2)))
               OR push_bit 24 (ucast (data ! (off + 3))))
     else Inl RangeError)"

text \<open>\<open>data[k]\<close>: \<open>undefined\<close> (here \<open>None\<close>) beyond the end of the buffer.\<close>

definition byteAt :: "byte list \<Rightarrow> nat \<Rightarrow> byte option" where
  "byteAt data k = (if k < length data then Some (data ! k) else None)"

text \<open>
  \<open>data.toString('ascii', start, end)\<close>: the bytes from \<open>start\<close> up to \<open>end\<close>, each
  with its highest bit cleared.
\<close>

definition toString_ascii :: "byte list \<Rightarrow> nat \<Rightarrow> nat \<Rightarrow> string" where
  "toString_ascii data start end' =
     map (\<lambda>b. char_of (unat (b AND 0x7f))) (take (end' - start) (drop start data))"

subsection \<open>Parser state and notifications\<close>

record Header =
  cmd :: string
  size_hdr :: u32
  checksum :: u32

record parser =
  network :: network
  pending :: "byte list list"
  total :: nat
  waiting :: nat
  header :: "Header option"

text \<open>\<open>new Parser(network)\<close>.\<close>

definition Parser :: "network \<Rightarrow> parser" where
  "Parser nw = \<lparr>network = nw, pending = [], total = 0, waiting = 24, header = None\<rparr>"

text \<open>
  What \<open>emit\<close> sends to the listeners, which are taken to return without touching
  the parser. The error of each kind carries the number its
  message is formatted from (the magic read, the declared size, the checksum
  computed); \<open>Thrown\<close> is the exception of \<open>packets.fromRaw\<close>, passed on as it is.
\<close>

datatype 'e parse_error =
    InvalidMagic u32
  | UnterminatedCommand
  | OversizePacket u32
  | InvalidChecksum u32
  | Thrown 'e

datatype ('e, 'p) event = Error "'e parse_error" | Packet 'p

subsection \<open>parseHeader\<close>

text \<open>
  The loop \<open>for (; data[i + 4] !== 0 && i < 12; i++);\<close>. The byte is compared before
  the bound is, so the last test reads \<open>data[16]\<close>.
\<close>

function cmdLength :: "byte list \<Rightarrow> nat \<Rightarrow> nat" where
  "cmdLength data i =
     (if byteAt data (i + 4) \<noteq> Some 0 \<and> i < 12 then cmdLength data (i + 1) else i)"
  by pat_completeness auto
termination
  by (relation "measure (\<lambda>(data, i). 12 - i)") auto

declare cmdLength.simps [simp del]

text \<open>
  \<open>parseHeader(data)\<close> returns the header or \<open>null\<close>, sets \<open>this.waiting\<close> and may
  emit one error: the result is the new state, the returned value and what was
  emitted.
\<close>

definition parseHeader ::
  "('e, 'p) deps \<Rightarrow> parser \<Rightarrow> byte list
     \<Rightarrow> fault + (parser \<times> Header option \<times> ('e, 'p) event list)" where
  "parseHeader deps st data =
    (case readUInt32LE data 0 of
       Inl f \<Rightarrow> Inl f
     | Inr magic' \<Rightarrow>
        if magic' \<noteq> magic (network st)
        then Inr (st, None, [Error (InvalidMagic magic')])
        else
          let i = cmdLength data 0
          in if i = 12 then Inr (st, None, [Error UnterminatedCommand])
             else
               let cmd' = toString_ascii data 4 (4 + i)
               in case readUInt32LE data 16 of
                    Inl f \<Rightarrow> Inl f
                  | Inr size' \<Rightarrow>
                     if unat size' > MAX_MESSAGE deps
                     then Inr (st\<lparr>waiting := 24\<rparr>, None, [Error (OversizePacket size')])
                     else
                       let st' = st\<lparr>waiting := unat size'\<rparr>
                       in case readUInt32LE data 20 of
                            Inl f \<Rightarrow> Inl f
                          | Inr checksum' \<Rightarrow>
                             Inr (st',
                                  Some \<lparr>cmd = cmd', size_hdr = size', checksum = checksum'\<rparr>,
                                  []))"

subsection \<open>parse\<close>

definition parsePayload :: "('e, 'p) deps \<Rightarrow> string \<Rightarrow> byte list \<Rightarrow> 'e + 'p" where
  "parsePayload deps cmd' data = fromRaw deps cmd' data"

definition parse ::
  "('e, 'p) deps \<Rightarrow> parser \<Rightarrow> byte list \<Rightarrow> fault + (parser \<times> ('e, 'p) event list)" where
  "parse deps st data =
    (if \<not> length data \<le> MAX_MESSAGE deps then Inl AssertionError
     else
       case header st of
         None \<Rightarrow>
           (case parseHeader deps st data of
              Inl f \<Rightarrow> Inl f
            | Inr (st', h, evs) \<Rightarrow> Inr (st'\<lparr>header := h\<rparr>, evs))
       | Some hdr \<Rightarrow>
           (case readUInt32LE (hash256 deps data) 0 of
              Inl f \<Rightarrow> Inl f
            | Inr checksum' \<Rightarrow>
               if checksum' \<noteq> checksum hdr
               then Inr (st\<lparr>waiting := 24, header := None\<rparr>,
                         [Error (InvalidChecksum checksum')])
               else
                 case parsePayload deps (cmd hdr) data of
                   Inl e \<Rightarrow> Inr (st\<lparr>waiting := 24, header := None\<rparr>, [Error (Thrown e)])
                 | Inr payload \<Rightarrow>
                     Inr (st\<lparr>waiting := 24, header := None\<rparr>, [Packet payload])))"

subsection \<open>feed\<close>

text \<open>
  The inner loop of \<open>feed\<close> fills a chunk of \<open>n\<close> bytes from the head of the queue.
  \<open>chunk\<close> is the part filled so far (\<open>off\<close> is its length); \<open>copy\<close> moves as many
  bytes as the head buffer has and the chunk still lacks; a head buffer that was
  copied whole is shifted out, otherwise it is replaced by its remainder. On an
  empty queue \<open>this.pending[0]\<close> is \<open>undefined\<close> and the call on it throws. The
  \<open>assert.strictEqual(off, chunk.length)\<close> that follows the loop cannot fail, as
  \<open>copy\<close> never moves more than the chunk lacks (lemma \<open>take_chunk_length\<close> below).
\<close>

function take_chunk ::
  "nat \<Rightarrow> byte list list \<Rightarrow> byte list \<Rightarrow> fault + (byte list \<times> byte list list)" where
  "take_chunk n pend chunk =
     (if length chunk < n then
        (case pend of
           [] \<Rightarrow> Inl TypeError
         | b # rest \<Rightarrow>
             let len = min (length b) (n - length chunk)
             in if len = length b
                then take_chunk n rest (chunk @ take len b)
                else take_chunk n (drop len b # rest) (chunk @ take len b))
      else Inr (chunk, pend))"
  by pat_completeness auto
termination
  by (relation "measures [\<lambda>(n, pend, chunk). length pend, \<lambda>(n, pend, chunk). n - length chunk]")
     (auto simp: min_def split: if_splits)

declare take_chunk.simps [simp del]

text \<open>
  One entry of the log that the model keeps of the outer loop: whether \<open>this.header\<close>
  was \<open>null\<close> when \<open>parse\<close> was called (the chunk was taken for a header), the
  chunk that was passed to \<open>parse\<close>, whether the iteration was a header parse that
  returned a header (\<open>this.header\<close> was \<open>null\<close> before the call and is not after
  it), and what the iteration emitted.
\<close>

datatype ('e, 'p) step =
  Step (awaited_header: bool) (consumed: "byte list") (header_parsed: bool)
       (emitted: "('e, 'p) event list")

definition notifications :: "('e, 'p) step list \<Rightarrow> ('e, 'p) event list" where
  "notifications tr = concat (map emitted tr)"

text \<open>
  The outer loop \<open>while (this.total >= this.waiting)\<close>. Nothing in the loop itself
  bounds the number of iterations (with \<open>waiting = 0\<close> and no header it would not
  stop), so the result is an \<open>option\<close>: \<open>None\<close> when the loop runs forever,
  \<open>Some (Inl f)\<close> when an exception leaves it, \<open>Some (Inr (st, log))\<close> when it returns.
\<close>

partial_function (option) feed_loop ::
  "('e, 'p) deps \<Rightarrow> parser \<Rightarrow> ('e, 'p) step list
     \<Rightarrow> (fault + parser \<times> ('e, 'p) step list) option" where
  "feed_loop deps st tr =
     (if total st \<ge> waiting st then
        (case take_chunk (waiting st) (pending st) [] of
           Inl f \<Rightarrow> Some (Inl f)
         | Inr (chunk, pend) \<Rightarrow>
             let st1 = st\<lparr>pending := pend, total := total st - length chunk\<rparr>
             in case parse deps st1 chunk of
                  Inl f \<Rightarrow> Some (Inl f)
                | Inr (st2, evs) \<Rightarrow>
                    feed_loop deps st2
                      (tr @ [Step (header st1 = None) chunk
                               (header st1 = None \<and> header st2 \<noteq> None) evs]))
      else Some (Inr (st, tr)))"

declare feed_loop.simps [code]

definition feed ::
  "('e, 'p) deps \<Rightarrow> parser \<Rightarrow> byte list
     \<Rightarrow> (fault + parser \<times> ('e, 'p) step list) option" where
  "feed deps st data =
     feed_loop deps (st\<lparr>total := total st + length data, pending := pending st @ [data]\<rparr>) []"

text \<open>
  A sequence of \<open>feed\<close> calls on one parser, the logs joined in order. An exception or
  a call that does not return ends the sequence.
\<close>

fun feeds ::
  "('e, 'p) deps \<Rightarrow> parser \<Rightarrow> byte list list
     \<Rightarrow> (fault + parser \<times> ('e, 'p) step list) option" where
  "feeds deps st [] = Some (Inr (st, []))"
| "feeds deps st (d # ds) =
     (case feed deps st d of
        None \<Rightarrow> None
      | Some (Inl f) \<Rightarrow> Some (Inl f)
      | Some (Inr (st', tr)) \<Rightarrow>
          (case feeds deps st' ds of
             None \<Rightarrow> None
           | Some (Inl f) \<Rightarrow> Some (Inl f)
           | Some (Inr (st'', tr')) \<Rightarrow> Some (Inr (st'', tr @ tr'))))"

subsection \<open>Predicates used to state and prove the properties of the parser\<close>

text \<open>The first two statements of \<open>feed\<close>: the buffer is counted and queued.\<close>

definition push :: "parser \<Rightarrow> byte list \<Rightarrow> parser" where
  "push st data = st\<lparr>total := total st + length data, pending := pending st @ [data]\<rparr>"

text \<open>
  The outer loop as a relation: \<open>loop deps st log s\<close> holds when the loop, started in
  \<open>st\<close>, returns in state \<open>s\<close> after the iterations listed in \<open>log\<close>.
\<close>

inductive loop ::
  "('e, 'p) deps \<Rightarrow> parser \<Rightarrow> ('e, 'p) step list \<Rightarrow> parser \<Rightarrow> bool"
  for deps :: "('e, 'p) deps" where
  stop: "total st < waiting st \<Longrightarrow> loop deps st [] st"
| step: "waiting st \<le> total st \<Longrightarrow>
         take_chunk (waiting st) (pending st) [] = Inr (chunk, pend) \<Longrightarrow>
         parse deps (st\<lparr>pending := pend, total := total st - length chunk\<rparr>) chunk
           = Inr (st2, evs) \<Longrightarrow>
         loop deps st2 tr s \<Longrightarrow>
         loop deps st
           (Step (header st = None) chunk (header st = None \<and> header st2 \<noteq> None) evs # tr) s"

text \<open>
  What the properties below require of the absent modules: a header chunk passes the
  assertion of \<open>parse\<close>, and a digest has the four bytes that are read from it.
\<close>

definition deps_ok :: "('e, 'p) deps \<Rightarrow> bool" where
  "deps_ok deps = (24 \<le> MAX_MESSAGE deps \<and> (\<forall>d. 4 \<le> length (hash256 deps d)))"

text \<open>
  \<open>waiting\<close> agrees with \<open>header\<close>; with it, \<open>total\<close> is the number of queued bytes.
\<close>

definition hinv :: "('e, 'p) deps \<Rightarrow> parser \<Rightarrow> bool" where
  "hinv deps st =
     (case header st of
        None \<Rightarrow> waiting st = 24
      | Some h \<Rightarrow> waiting st = unat (size_hdr h) \<and> unat (size_hdr h) \<le> MAX_MESSAGE deps)"

definition wf_parser :: "('e, 'p) deps \<Rightarrow> parser \<Rightarrow> bool" where
  "wf_parser deps st = (total st = length (concat (pending st)) \<and> hinv deps st)"

text \<open>Two states that differ at most in how the queued bytes are cut into buffers.\<close>

definition similar :: "parser \<Rightarrow> parser \<Rightarrow> bool" where
  "similar st st' =
     (network st = network st' \<and> waiting st = waiting st' \<and> header st = header st'
      \<and> total st = total st' \<and> concat (pending st) = concat (pending st'))"

text \<open>
  A 24-byte chunk is a header that parses, in the words of the specification: the
  magic read at offset 0 is the network's, there is a NUL within the 12-byte command
  field, and the size read at offset 16 is at most \<open>MAX_MESSAGE\<close>.
\<close>

definition header_accepted :: "('e, 'p) deps \<Rightarrow> network \<Rightarrow> byte list \<Rightarrow> bool" where
  "header_accepted deps nw data =
     (length data = 24
      \<and> readUInt32LE data 0 = Inr (magic nw)
      \<and> (\<exists>j<12. data ! (4 + j) = 0)
      \<and> (\<exists>sz. readUInt32LE data 16 = Inr sz \<and> unat sz \<le> MAX_MESSAGE deps))"

text \<open>
  The last entry of a log describes a call of \<open>parse\<close> that led to the header of
  \<open>s\<close>: the call was made in a state \<open>st1\<close> of the network \<open>nw\<close> in which \<open>waiting\<close>
  agrees with \<open>header\<close>, on a chunk of \<open>waiting\<close> bytes.
\<close>

definition last_step ::
  "('e, 'p) deps \<Rightarrow> network \<Rightarrow> ('e, 'p) step list \<Rightarrow> parser \<Rightarrow> bool" where
  "last_step deps nw tr s =
     (\<exists>st1 st2.
        hinv deps st1 \<and> network st1 = nw
      \<and> awaited_header (last tr) = (header st1 = None)
      \<and> length (consumed (last tr)) = waiting st1
      \<and> parse deps st1 (consumed (last tr)) = Inr (st2, emitted (last tr))
      \<and> header_parsed (last tr) = (header st1 = None \<and> header st2 \<noteq> None)
      \<and> header s = header st2)"

section \<open>The subsidy schedule\<close>

text \<open>
  C1. The table gives 21 coins to every height from 121394 to 196418. The band that
  follows is written with the lower bound 196148 where the band before it ends at
  196418, so the heights 196149 to 196418 match both bands and the later assignment
  (34 coins) is the one returned.
\<close>

theorem getReward_196149:
  "getReward 196149 i = Inr (34 * COIN) \<and> getReward 196418 i = Inr (34 * COIN)
   \<and> getReward 196148 i = Inr (21 * COIN) \<and> 34 * COIN \<noteq> 21 * COIN"
  by (simp add: getReward_def COIN_def)

text \<open>
  C8. For every height \<open>h \<ge> 0\<close> the reward is returned, lies between 0 and the premine
  of 12,226,641 coins, and is 0 above height 24,157,817.
\<close>

theorem getReward_bounds:
  "0 \<le> h \<Longrightarrow>
   \<exists>r. getReward h i = Inr r \<and> 0 \<le> r \<and> r \<le> 12226641 * COIN
       \<and> (24157817 < h \<longrightarrow> r = 0)"
  by (simp add: getReward_def COIN_def Let_def)

theorem getReward_bounds_witness:
  "(0::int) \<le> 24157818 \<and> getReward 24157818 () = Inr 0
   \<and> getReward 0 () = Inr (12226641 * COIN)"
  using getReward_bounds [of 24157818 "()"] getReward_bounds [of 0 "()"]
  by (simp add: getReward_def COIN_def)

text \<open>
  C10. The result of \<open>getReward\<close> does not depend on its second argument, whatever the
  two values (and their types) are.
\<close>

theorem getReward_interval_independent:
  "getReward h (i1 :: 'a) = getReward h (i2 :: 'b)"
  by (simp add: getReward_def)

text \<open>
  C9. For a bit index from 0 to 28, \<open>hasBit\<close> holds exactly when the top three bits of
  the version are \<open>001\<close> and the indexed bit is set; the three sample values.
\<close>

theorem hasBit_iff:
  "(n \<le> 28 \<longrightarrow>
      hasBit version n = ((version AND 0xE0000000) = 0x20000000 \<and> bit version n))
   \<and> hasBit 0x20000001 0 \<and> \<not> hasBit 0x40000001 0 \<and> \<not> hasBit 0x20000000 0"
proof -
  have "n \<le> 28 \<Longrightarrow> (version AND push_bit (n mod 32) 1 \<noteq> 0) = bit version n"
    by (simp add: bit_iff_and_push_bit_not_eq_0)
  then show ?thesis
    by (auto simp add: hasBit_def VERSION_TOP_MASK_def VERSION_TOP_BITS_def Let_def)
qed

theorem hasBit_iff_witness:
  "(5::nat) \<le> 28 \<and> hasBit 0x20000020 5 \<and> \<not> hasBit 0x20000020 4 \<and> \<not> hasBit 0x60000020 5"
  using hasBit_iff [of 5 "0x20000020"] hasBit_iff [of 4 "0x20000020"]
    hasBit_iff [of 5 "0x60000020"]
  by simp

section \<open>Proof of work\<close>

text \<open>
  C2. \<open>verifyPOW\<close> returns false when the decoded target is negative or zero, and
  otherwise returns whether the hash, read as a little-endian integer, is at most the
  target. Neither the network descriptor nor the block enters the result.
\<close>

theorem verifyPOW_spec:
  "(fromCompact bits \<le> 0 \<longrightarrow> \<not> verifyPOW nw blk hash bits)
   \<and> (0 < fromCompact bits \<longrightarrow>
        verifyPOW nw blk hash bits = (fromBytesLE hash \<le> fromCompact bits))
   \<and> verifyPOW nw blk hash bits = verifyPOW nw' blk' hash bits"
  by (auto simp add: verifyPOW_def Let_def)

theorem verifyPOW_spec_witness:
  "0 < fromCompact 0x207fffff
   \<and> verifyPOW \<lparr>magic = 0, pow_limit = 0, keccakPow_limit = 0\<rparr> \<lparr>hasNewPowVersion = True\<rparr>
        (1 # replicate 31 0) 0x207fffff
   \<and> \<not> verifyPOW \<lparr>magic = 0, pow_limit = 5, keccakPow_limit = 7\<rparr> \<lparr>hasNewPowVersion = False\<rparr>
        (replicate 32 0xff) 0x207fffff
   \<and> fromCompact 0x00800000 \<le> 0
   \<and> \<not> verifyPOW \<lparr>magic = 0, pow_limit = 5, keccakPow_limit = 7\<rparr> \<lparr>hasNewPowVersion = False\<rparr>
        (replicate 32 0) 0x00800000"
proof -
  have t: "fromCompact 0x207fffff = 0x7fffff * 2 ^ 232" "fromCompact 0x00800000 = 0"
    by (simp_all add: fromCompact_def)
  have h: "fromBytesLE (1 # replicate 31 0) = 1" "fromBytesLE (replicate 32 0xff) = 2 ^ 256 - 1"
    by code_simp+
  show ?thesis
    using t h
      verifyPOW_spec [of "0x207fffff"
        "\<lparr>magic = 0, pow_limit = 0, keccakPow_limit = 0\<rparr>" "\<lparr>hasNewPowVersion = True\<rparr>"
        "1 # replicate 31 0"]
      verifyPOW_spec [of "0x207fffff"
        "\<lparr>magic = 0, pow_limit = 5, keccakPow_limit = 7\<rparr>" "\<lparr>hasNewPowVersion = False\<rparr>"
        "replicate 32 0xff"]
      verifyPOW_spec [of "0x00800000"
        "\<lparr>magic = 0, pow_limit = 5, keccakPow_limit = 7\<rparr>" "\<lparr>hasNewPowVersion = False\<rparr>"
        "replicate 32 0"]
    by simp
qed

section \<open>Compact targets\<close>

subsection \<open>Byte length and the 32-bit operators, arithmetically\<close>

lemma byteLength_nat_bounds:
  "0 < n \<Longrightarrow> 256 ^ (byteLength_nat n - 1) \<le> n \<and> n < 256 ^ byteLength_nat n"
proof (induction n rule: byteLength_nat.induct)
  case (1 n)
  show ?case
  proof (cases "n div 256 = 0")
    case True
    then have "n < 256" by (simp add: div_eq_0_iff)
    with True 1(2) show ?thesis
      by (simp add: byteLength_nat.simps [of n] byteLength_nat.simps [of 0])
  next
    case False
    then have ih: "256 ^ (byteLength_nat (n div 256) - 1) \<le> n div 256"
      "n div 256 < 256 ^ byteLength_nat (n div 256)"
      using 1 by auto
    have pos: "0 < byteLength_nat (n div 256)"
      using False by (simp add: byteLength_nat.simps [of "n div 256"])
    have eq: "byteLength_nat n = Suc (byteLength_nat (n div 256))"
      using 1(2) by (simp add: byteLength_nat.simps [of n])
    have "256 * 256 ^ (byteLength_nat (n div 256) - 1) \<le> 256 * (n div 256)"
      using ih(1) by simp
    also have "\<dots> \<le> n" by simp
    finally have lo: "256 ^ byteLength_nat (n div 256) \<le> n"
      using pos by (cases "byteLength_nat (n div 256)") auto
    have "n < 256 * (n div 256 + 1)"
      by (metis dividend_less_times_div mult.commute zero_less_numeral add.commute Suc_eq_plus1 mult_Suc_right)
    also have "\<dots> \<le> 256 * 256 ^ byteLength_nat (n div 256)"
      using ih(2) by simp
    finally have hi: "n < 256 ^ Suc (byteLength_nat (n div 256))" by simp
    show ?thesis using lo hi eq by simp
  qed
qed

lemma byteLength_nat_pos: "0 < n \<Longrightarrow> 0 < byteLength_nat n"
  by (simp add: byteLength_nat.simps [of n])

lemma unat_of_nat_u32: "N < 2 ^ 32 \<Longrightarrow> unat (of_nat N :: u32) = N"
  by (simp add: unat_of_nat)

lemma parts_bound:
  assumes "e < 256" "m < 2 ^ 24"
  shows "e * 2 ^ 24 + m < (2 :: nat) ^ 32"
proof -
  have "e * 2 ^ 24 \<le> 255 * (2 ^ 24 :: nat)" using assms(1) by simp
  then show ?thesis using assms(2) by simp
qed

lemma fromCompact_unat:
  "fromCompact c =
    (if c = 0 then 0
     else
       let e = unat c div 2 ^ 24;
           m = unat c mod 2 ^ 23;
           num = (if e \<le> 3 then int (m div 2 ^ (8 * (3 - e))) else int m * 2 ^ (8 * (e - 3)))
       in if bit c 23 then - num else num)"
proof -
  have e: "unat (drop_bit 24 c) = unat c div 2 ^ 24"
    unfolding unat_drop_bit_eq by (simp add: drop_bit_eq_div)
  have "(0x7fffff :: u32) = mask 23" by (simp add: mask_eq_exp_minus_1)
  then have tb: "c AND 0x7fffff = take_bit 23 c" by (simp add: take_bit_eq_mask)
  have m: "uint (c AND 0x7fffff) = int (unat c mod 2 ^ 23)"
    unfolding tb uint_nat unsigned_take_bit_eq by (simp add: take_bit_eq_mod)
  have md: "uint (drop_bit k (c AND 0x7fffff)) = int ((unat c mod 2 ^ 23) div 2 ^ k)" for k
    unfolding tb uint_nat unat_drop_bit_eq unsigned_take_bit_eq
    by (simp add: take_bit_eq_mod drop_bit_eq_div)
  have neg: "(drop_bit 23 c AND 1 \<noteq> 0) = bit c 23"
    by (simp add: bit_word_iff_drop_bit_and and_one_eq)
  show ?thesis
    unfolding fromCompact_def Let_def e m md neg
    by (simp add: push_bit_eq_mult)
qed

lemma nat_bit_high: "m < 2 ^ k \<Longrightarrow> k \<le> n \<Longrightarrow> \<not> bit (m :: nat) n"
proof -
  assume a: "m < 2 ^ k" "k \<le> n"
  have "(2 :: nat) ^ k \<le> 2 ^ n" using a(2) by (simp add: power_increasing)
  then have "m < 2 ^ n" using a(1) by linarith
  then have "m div 2 ^ n = 0" by simp
  then show ?thesis by (simp add: bit_iff_odd)
qed

lemma signed_drop_bit_mantissa: "m < 2 ^ 24 \<Longrightarrow> signed_drop_bit 8 (of_nat m :: u32) = of_nat (m div 256)"
proof (rule bit_word_eqI)
  fix n
  assume a: "m < 2 ^ 24" and n: "n < LENGTH(32)"
  have d: "m div 256 = drop_bit 8 m" by (simp add: drop_bit_eq_div)
  show "bit (signed_drop_bit 8 (of_nat m :: u32)) n = bit (of_nat (m div 256) :: u32) n"
  proof (cases "24 \<le> n")
    case True
    then show ?thesis
      using n nat_bit_high [OF a, of 31] nat_bit_high [OF a, of "8 + n"]
      by (simp add: bit_signed_drop_bit_iff bit_of_nat_iff d bit_drop_bit_eq)
  next
    case False
    then show ?thesis
      using n by (simp add: bit_signed_drop_bit_iff bit_of_nat_iff d bit_drop_bit_eq)
  qed
qed

lemma push_bit_24_add_or: "m < 2 ^ 24 \<Longrightarrow> push_bit 24 e + m = push_bit 24 e OR (m :: nat)"
proof (rule disjunctive_add)
  fix n
  assume a: "m < 2 ^ 24"
  show "\<not> bit (push_bit 24 e) n \<or> \<not> bit m n"
  proof (cases "24 \<le> n")
    case True
    then show ?thesis using nat_bit_high [OF a, of n] by simp
  next
    case False
    then show ?thesis by (simp add: bit_push_bit_iff)
  qed
qed

lemma pack_parts: "m < 2 ^ 24 \<Longrightarrow>
  push_bit 24 (of_nat e :: u32) OR of_nat m = of_nat (e * 2 ^ 24 + m)"
proof -
  assume a: "m < 2 ^ 24"
  have "e * 2 ^ 24 + m = push_bit 24 e OR m"
    using push_bit_24_add_or [OF a, of e] by (simp add: push_bit_eq_mult)
  then have "(of_nat (e * 2 ^ 24 + m) :: u32) = of_nat (push_bit 24 e OR m)" by simp
  also have "\<dots> = push_bit 24 (of_nat e) OR of_nat m"
    by (simp only: of_nat_or_eq of_nat_push_bit)
  finally show ?thesis by simp
qed

lemma mantissa_sign_bit_iff: "m < 2 ^ 24 \<Longrightarrow> ((of_nat m :: u32) AND 0x800000 \<noteq> 0) = (2 ^ 23 \<le> m)"
proof -
  assume a: "m < 2 ^ 24"
  have "(0x800000 :: u32) = 2 ^ 23" by simp
  then have "((of_nat m :: u32) AND 0x800000 \<noteq> 0) = bit (of_nat m :: u32) 23"
    by (simp only: and_exp_eq_0_iff_not_bit) simp
  also have "\<dots> = bit m 23" by (simp add: bit_of_nat_iff)
  also have "\<dots> = odd (m div 2 ^ 23)" by (simp add: bit_iff_odd)
  also have "\<dots> = (2 ^ 23 \<le> m)"
  proof -
    have "m div 2 ^ 23 < 2" using a by (simp add: less_mult_imp_div_less)
    then have "m div 2 ^ 23 = 0 \<or> m div 2 ^ 23 = 1" by auto
    then show ?thesis using a by (auto simp: div_eq_0_iff)
  qed
  finally show ?thesis .
qed


lemma mantissa0_bound:
  assumes "0 < n"
  shows "(if byteLength_nat n \<le> 3 then n * 2 ^ (8 * (3 - byteLength_nat n))
          else n div 2 ^ (8 * (byteLength_nat n - 3))) < 2 ^ 24"
proof -
  let ?e = "byteLength_nat n"
  have hi: "n < 2 ^ (8 * ?e)"
    using byteLength_nat_bounds [OF assms] by (simp add: power_mult)
  show ?thesis
  proof (cases "?e \<le> 3")
    case True
    have "n * 2 ^ (8 * (3 - ?e)) < 2 ^ (8 * ?e) * 2 ^ (8 * (3 - ?e))"
      using hi by simp
    also have "\<dots> = 2 ^ (8 * ?e + 8 * (3 - ?e))"
      by (simp add: power_add)
    also have "8 * ?e + 8 * (3 - ?e) = 24" using True by simp
    finally have "n * 2 ^ (8 * (3 - ?e)) < 2 ^ 24" .
    then show ?thesis using True by simp
  next
    case False
    have "8 * ?e = 24 + 8 * (?e - 3)" using False by simp
    then have "(2 :: nat) ^ (8 * ?e) = 2 ^ (24 + 8 * (?e - 3))" by simp
    then have "(2 :: nat) ^ (8 * ?e) = 2 ^ 24 * 2 ^ (8 * (?e - 3))"
      by (simp only: power_add)
    then have "n div 2 ^ (8 * (?e - 3)) < 2 ^ 24"
      using hi by (simp add: less_mult_imp_div_less)
    then show ?thesis using False by simp
  qed
qed

lemma toCompact_pos:
  assumes "0 < n"
  shows "toCompact (int n) =
    (let e = byteLength_nat n;
         m0 = (if e \<le> 3 then n * 2 ^ (8 * (3 - e)) else n div 2 ^ (8 * (e - 3)))
     in if 2 ^ 23 \<le> m0 then of_nat ((e + 1) * 2 ^ 24 + m0 div 256)
        else of_nat (e * 2 ^ 24 + m0))"
proof -
  let ?e = "byteLength_nat n"
  let ?m0 = "if ?e \<le> 3 then n * 2 ^ (8 * (3 - ?e)) else n div 2 ^ (8 * (?e - 3))"
  have b: "?m0 < 2 ^ 24" by (rule mantissa0_bound [OF assms])
  have bl: "byteLength (int n) = ?e" by (simp add: byteLength_def)
  have m1: "push_bit k (word_of_int (int n) :: u32) = of_nat (n * 2 ^ k)" for k
    by (simp add: push_bit_eq_mult)
  have m2: "(word_of_int (ushrn (int n) k) :: u32) = of_nat (n div 2 ^ k)" for k
  proof -
    have "ushrn (int n) k = int (n div 2 ^ k)"
      using assms by (simp add: ushrn_def drop_bit_eq_div zdiv_int)
    then show ?thesis by simp
  qed
  have man: "(if ?e \<le> 3 then push_bit (8 * (3 - ?e)) (word_of_int (int n) :: u32)
              else word_of_int (ushrn (int n) (8 * (?e - 3)))) = of_nat ?m0"
    unfolding m1 m2 by simp
  have b': "?m0 div 256 < 2 ^ 24" using b by simp
  show ?thesis
    unfolding toCompact_def bl Let_def man
    using assms mantissa_sign_bit_iff [OF b] signed_drop_bit_mantissa [OF b] pack_parts [OF b, of ?e] pack_parts [OF b', of "?e + 1"]
    by (simp del: of_nat_add of_nat_mult)
qed


lemma mod_part: "m < K \<Longrightarrow> (a * K + m) mod K = (m :: nat)"
  by simp

lemma div_part: "m < K \<Longrightarrow> (a * K + m) div K = (a :: nat)"
  by simp

lemma fromCompact_parts:
  assumes "0 < e" "e < 256" "m < 2 ^ 23"
  shows "fromCompact (of_nat (e * 2 ^ 24 + m)) =
     (if e \<le> 3 then int (m div 2 ^ (8 * (3 - e))) else int m * 2 ^ (8 * (e - 3)))"
proof -
  define N where "N = e * 2 ^ 24 + m"
  have m24: "m < 2 ^ 24" using assms(3) by simp
  have u: "unat (of_nat N :: u32) = N"
    unfolding N_def by (rule unat_of_nat_u32 [OF parts_bound [OF assms(2) m24]])
  have Npos: "0 < N" using assms(1) by (simp add: N_def)
  have nz: "(of_nat N :: u32) \<noteq> 0"
    using u Npos by (metis less_numeral_extra(3) unat_0)
  have ex: "N div 2 ^ 24 = e" using m24 by (simp add: N_def)
  have eqN: "N = (2 * e) * 2 ^ 23 + m" by (simp add: N_def)
  have ma: "N mod 2 ^ 23 = m"
    unfolding eqN using assms(3) by (rule mod_part)
  have d23: "N div 2 ^ 23 = 2 * e"
    unfolding eqN using assms(3) by (rule div_part)
  have "bit (of_nat N :: u32) 23 = bit N 23" by (simp add: bit_of_nat_iff)
  also have "\<dots> = odd (N div 2 ^ 23)" by (simp add: bit_iff_odd)
  finally have nb: "\<not> bit (of_nat N :: u32) 23" using d23 by simp
  show ?thesis
    unfolding N_def [symmetric] fromCompact_unat [of "of_nat N"] u Let_def ex ma
    using nz nb by simp
qed

lemma high_bit_iff:
  assumes "0 < n"
  shows "(2 ^ 23 \<le> (if byteLength_nat n \<le> 3 then n * 2 ^ (8 * (3 - byteLength_nat n))
          else n div 2 ^ (8 * (byteLength_nat n - 3)))) = (2 ^ (8 * byteLength_nat n - 1) \<le> n)"
proof -
  let ?e = "byteLength_nat n"
  have pos: "0 < ?e" by (rule byteLength_nat_pos [OF assms])
  show ?thesis
  proof (cases "?e \<le> 3")
    case True
    have "23 = (8 * ?e - 1) + 8 * (3 - ?e)" using True pos by simp
    then have "(2 :: nat) ^ 23 = 2 ^ ((8 * ?e - 1) + 8 * (3 - ?e))" by simp
    then have hh: "(2 :: nat) ^ 23 = 2 ^ (8 * ?e - 1) * 2 ^ (8 * (3 - ?e))"
      by (simp only: power_add)
    have "(2 ^ 23 \<le> n * 2 ^ (8 * (3 - ?e)))
       = (2 ^ (8 * ?e - 1) * 2 ^ (8 * (3 - ?e)) \<le> n * 2 ^ (8 * (3 - ?e)))"
      by (simp only: hh)
    also have "\<dots> = (2 ^ (8 * ?e - 1) \<le> n)" by simp
    finally show ?thesis using True by simp
  next
    case False
    have "8 * ?e - 1 = 23 + 8 * (?e - 3)" using False by simp
    then have "(2 :: nat) ^ (8 * ?e - 1) = 2 ^ (23 + 8 * (?e - 3))" by simp
    then have "(2 :: nat) ^ (8 * ?e - 1) = 2 ^ 23 * 2 ^ (8 * (?e - 3))"
      by (simp only: power_add)
    then show ?thesis using False by (simp add: less_eq_div_iff_mult_less_eq)
  qed
qed


lemma pow256: "(256 :: nat) ^ k = 2 ^ (8 * k)"
  by (simp add: power_mult)

lemma roundtrip_nat:
  assumes "0 < n" "byteLength_nat n \<le> 32"
  shows "fromCompact (toCompact (int n)) =
    int (n - n mod 256 ^ (byteLength_nat n
            + (if 2 ^ (8 * byteLength_nat n - 1) \<le> n then 1 else 0) - 3))"
proof -
  let ?e = "byteLength_nat n"
  let ?m0 = "if ?e \<le> 3 then n * 2 ^ (8 * (3 - ?e)) else n div 2 ^ (8 * (?e - 3))"
  have pos: "0 < ?e" by (rule byteLength_nat_pos [OF assms(1)])
  have b: "?m0 < 2 ^ 24" by (rule mantissa0_bound [OF assms(1)])
  have hb: "(2 ^ 23 \<le> ?m0) = (2 ^ (8 * ?e - 1) \<le> n)" by (rule high_bit_iff [OF assms(1)])
  have tc: "toCompact (int n) =
      (if 2 ^ 23 \<le> ?m0 then of_nat ((?e + 1) * 2 ^ 24 + ?m0 div 256)
       else of_nat (?e * 2 ^ 24 + ?m0))"
    using toCompact_pos [OF assms(1)] by (simp only: Let_def)
  show ?thesis
  proof (cases "2 ^ 23 \<le> ?m0")
    case True
    have M: "?m0 div 256 < 2 ^ 23" using b by simp
    have E: "0 < ?e + 1" "?e + 1 < 256" using assms(2) by simp_all
    have fc: "fromCompact (toCompact (int n)) =
        (if ?e + 1 \<le> 3 then int (?m0 div 256 div 2 ^ (8 * (3 - (?e + 1))))
         else int (?m0 div 256) * 2 ^ (8 * (?e + 1 - 3)))"
      using fromCompact_parts [OF E M] tc True by (simp only: if_True)
    have k: "?e + (if 2 ^ (8 * ?e - 1) \<le> n then 1 else 0) - 3 = ?e + 1 - 3"
      using True hb by simp
    consider "?e = 1" | "?e = 2" | "?e = 3" | "3 < ?e" using pos by linarith
    then show ?thesis
    proof cases
      case 1
      then show ?thesis unfolding fc k by simp
    next
      case 2
      then show ?thesis unfolding fc k by simp
    next
      case 3
      then show ?thesis unfolding fc k by (simp add: minus_mod_eq_div_mult)
    next
      case 4
      have "8 * (?e - 3) + 8 = 8 * (?e - 2)" using 4 by simp
      then have "n div 2 ^ (8 * (?e - 3)) div 256 = n div 2 ^ (8 * (?e - 2))"
      proof -
        have "n div 2 ^ (8 * (?e - 3)) div 2 ^ 8 = n div (2 ^ (8 * (?e - 3)) * 2 ^ 8)"
          by (simp only: div_mult2_eq)
        also have "\<dots> = n div 2 ^ (8 * (?e - 3) + 8)" by (simp only: power_add)
        finally show ?thesis using \<open>8 * (?e - 3) + 8 = 8 * (?e - 2)\<close> by simp
      qed
      then show ?thesis unfolding fc k using 4 by (simp add: minus_mod_eq_div_mult pow256)
    qed
  next
    case False
    have M: "?m0 < 2 ^ 23" using False by simp
    have E: "0 < ?e" "?e < 256" using assms(2) pos by simp_all
    have fc: "fromCompact (toCompact (int n)) =
        (if ?e \<le> 3 then int (?m0 div 2 ^ (8 * (3 - ?e)))
         else int ?m0 * 2 ^ (8 * (?e - 3)))"
      using fromCompact_parts [OF E M] tc False by (simp only: if_False)
    have k: "?e + (if 2 ^ (8 * ?e - 1) \<le> n then 1 else 0) - 3 = ?e - 3"
      using False hb by simp
    show ?thesis
    proof (cases "?e \<le> 3")
      case True
      then show ?thesis unfolding fc k by simp
    next
      case False
      then show ?thesis unfolding fc k by (simp add: minus_mod_eq_div_mult pow256)
    qed
  qed
qed


lemma top_bit_iff:
  assumes "0 < n"
  shows "bit (int n) (8 * byteLength_nat n - 1) = (2 ^ (8 * byteLength_nat n - 1) \<le> n)"
proof -
  let ?j = "8 * byteLength_nat n - 1"
  have pos: "0 < byteLength_nat n" by (rule byteLength_nat_pos [OF assms])
  have "n < 2 ^ (8 * byteLength_nat n)"
    using byteLength_nat_bounds [OF assms] by (simp add: pow256)
  moreover have eq: "8 * byteLength_nat n = Suc ?j" using pos by simp
  ultimately have "n < 2 ^ Suc ?j" by (subst eq [symmetric])
  then have "n < 2 * 2 ^ ?j" by simp
  then have "n div 2 ^ ?j < 2" by (simp add: less_mult_imp_div_less)
  then have d: "n div 2 ^ ?j = 0 \<or> n div 2 ^ ?j = 1" by auto
  have z: "(n div 2 ^ ?j = 0) = (n < 2 ^ ?j)" by (simp add: div_eq_0_iff)
  have "odd (n div 2 ^ ?j) = (2 ^ ?j \<le> n)"
  proof (cases "n div 2 ^ ?j = 0")
    case True
    then show ?thesis using z by simp
  next
    case False
    then have "n div 2 ^ ?j = 1" using d by simp
    then show ?thesis using z False by (simp add: not_less)
  qed
  moreover have "bit (int n) ?j = bit n ?j" by (simp only: bit_of_nat_iff_bit)
  ultimately show ?thesis by (simp add: bit_iff_odd)
qed

subsection \<open>The round trip\<close>

text \<open>
  C3, as stated, fails: \<open>toCompact\<close> keeps at most three leading bytes. The value
  \<open>0x01000001\<close> has byte length 4 and comes back as \<open>0x01000000\<close>.
\<close>

theorem compact_roundtrip_counterexample:
  "(0::int) \<le> 16777217 \<and> byteLength 16777217 \<le> 32
   \<and> fromCompact (toCompact 16777217) = 16777216
   \<and> fromCompact (toCompact 16777217) \<noteq> 16777217"
  by (simp add: byteLength_def byteLength_nat.simps toCompact_def fromCompact_def ushrn_def)

text \<open>
  C3, amended. For a non-negative \<open>x\<close> of byte length at most 32, the round trip
  returns \<open>x\<close> with its \<open>k\<close> least significant bytes cleared, where \<open>k\<close> is the
  byte length minus 3, plus 1 when the top bit of the leading byte is set (and 0 when
  that is negative). So it returns \<open>x\<close> itself exactly when those \<open>k\<close> bytes are zero,
  and always when \<open>x\<close> has at most two bytes.
\<close>

theorem compact_roundtrip_truncates:
  assumes "0 \<le> x" "byteLength x \<le> 32"
  shows "let k = byteLength x + (if bit x (8 * byteLength x - 1) then 1 else 0) - 3
         in fromCompact (toCompact x) = x - x mod 256 ^ k
            \<and> (fromCompact (toCompact x) = x) = (x mod 256 ^ k = 0)
            \<and> (byteLength x \<le> 2 \<longrightarrow> fromCompact (toCompact x) = x)"
proof (cases "x = 0")
  case True
  then show ?thesis by (simp add: toCompact_def fromCompact_def)
next
  case False
  define n where "n = nat x"
  have x: "x = int n" and npos: "0 < n" using assms(1) False by (simp_all add: n_def)
  have bl: "byteLength x = byteLength_nat n" by (simp add: byteLength_def x)
  have le: "byteLength_nat n \<le> 32" using assms(2) bl by simp
  have tb: "bit x (8 * byteLength x - 1) = (2 ^ (8 * byteLength_nat n - 1) \<le> n)"
    unfolding bl unfolding x by (rule top_bit_iff [OF npos])
  have "fromCompact (toCompact x) =
      int (n - n mod 256 ^ (byteLength_nat n
            + (if bit x (8 * byteLength x - 1) then 1 else 0) - 3))"
    unfolding tb unfolding x by (rule roundtrip_nat [OF npos le])
  also have "\<dots> = x - x mod 256 ^ (byteLength x
            + (if bit x (8 * byteLength x - 1) then 1 else 0) - 3)"
    unfolding tb bl unfolding x by (simp add: of_nat_diff zmod_int)
  finally have main: "fromCompact (toCompact x) = x - x mod 256 ^ (byteLength x
            + (if bit x (8 * byteLength x - 1) then 1 else 0) - 3)" .
  show ?thesis unfolding Let_def main by auto
qed

theorem compact_roundtrip_truncates_witness:
  "(0::int) \<le> 16777217 \<and> byteLength 16777217 \<le> 32
   \<and> fromCompact (toCompact 16777217) = 16777217 - 16777217 mod 256 ^ 1
   \<and> fromCompact (toCompact 65535) = 65535"
  using compact_roundtrip_truncates [of 16777217] compact_roundtrip_truncates [of 65535]
  by (simp add: byteLength_def byteLength_nat.simps)

section \<open>The packet parser\<close>

subsection \<open>Filling a chunk, parsing it\<close>

lemma take_chunk_done: "\<not> length c < n \<Longrightarrow> take_chunk n p c = Inr (c, p)"
  by (simp add: take_chunk.simps [of n p c])

lemma take_chunk_nil: "length c < n \<Longrightarrow> take_chunk n [] c = Inl TypeError"
  by (simp add: take_chunk.simps [of n "[]" c])

lemma take_chunk_cons:
  "length c < n \<Longrightarrow>
   take_chunk n (b # rest) c =
     (if length b \<le> n - length c then take_chunk n rest (c @ b)
      else Inr (c @ take (n - length c) b, drop (n - length c) b # rest))"
proof (cases "length b \<le> n - length c")
  case True
  assume "length c < n"
  then show ?thesis
    using True by (simp add: take_chunk.simps [of n "b # rest" c] Let_def min_absorb1)
next
  case False
  assume a: "length c < n"
  have m: "min (length b) (n - length c) = n - length c" using False by simp
  have "take_chunk n (b # rest) c =
      take_chunk n (drop (n - length c) b # rest) (c @ take (n - length c) b)"
    using a False by (simp add: take_chunk.simps [of n "b # rest" c] Let_def m)
  also have "\<dots> = Inr (c @ take (n - length c) b, drop (n - length c) b # rest)"
    using a False by (intro take_chunk_done) simp
  finally show ?thesis using False by simp
qed

lemma take_chunk_spec:
  "length c \<le> n \<Longrightarrow> n \<le> length c + length (concat p) \<Longrightarrow>
   \<exists>p'. take_chunk n p c = Inr (c @ take (n - length c) (concat p), p')
        \<and> concat p' = drop (n - length c) (concat p)"
proof (induction p arbitrary: c)
  case Nil
  then show ?case by (simp add: take_chunk_done)
next
  case (Cons b rest)
  show ?case
  proof (cases "length c < n")
    case False
    then show ?thesis using Cons.prems by (simp add: take_chunk_done)
  next
    case True
    show ?thesis
    proof (cases "length b \<le> n - length c")
      case full: True
      have "\<exists>p'. take_chunk n rest (c @ b) = Inr ((c @ b) @ take (n - length (c @ b)) (concat rest), p')
            \<and> concat p' = drop (n - length (c @ b)) (concat rest)"
        using Cons.prems full True by (intro Cons.IH) auto
      then show ?thesis using True full by (auto simp: take_chunk_cons)
    next
      case False
      then show ?thesis using True by (simp add: take_chunk_cons)
    qed
  qed
qed

lemma take_chunk_append:
  "take_chunk n p c = Inr (ch, p') \<Longrightarrow> take_chunk n (p @ [d]) c = Inr (ch, p' @ [d])"
proof (induction p arbitrary: c)
  case Nil
  then show ?case
    by (cases "length c < n") (simp_all add: take_chunk_done take_chunk_nil)
next
  case (Cons b rest)
  show ?case
  proof (cases "length c < n")
    case False
    then show ?thesis using Cons.prems by (simp add: take_chunk_done)
  next
    case True
    then show ?thesis
      using Cons.prems Cons.IH [of "c @ b"]
      by (auto simp: take_chunk_cons split: if_splits)
  qed
qed

lemma take_chunk_length:
  "take_chunk n p c = Inr (ch, p') \<Longrightarrow> length c \<le> n \<Longrightarrow> length ch = n"
proof (induction p arbitrary: c)
  case Nil
  then show ?case
    by (cases "length c < n") (simp_all add: take_chunk_done take_chunk_nil)
next
  case (Cons b rest)
  show ?case
  proof (cases "length c < n")
    case False
    then show ?thesis using Cons.prems by (simp add: take_chunk_done)
  next
    case True
    then show ?thesis
      using Cons.prems Cons.IH [of "c @ b"]
      by (auto simp: take_chunk_cons split: if_splits)
  qed
qed

lemma parse_shape:
  "parse deps st ch = Inr (st2, evs) \<Longrightarrow>
   st2 = st\<lparr>waiting := waiting st2, header := header st2\<rparr>"
  by (auto simp: parse_def parseHeader_def parsePayload_def Let_def
      split: if_splits option.splits sum.splits prod.splits)

lemma parse_cong:
  "parse deps st ch = Inr (st2, evs) \<Longrightarrow>
   network st' = network st \<Longrightarrow> waiting st' = waiting st \<Longrightarrow> header st' = header st \<Longrightarrow>
   parse deps st' ch = Inr (st'\<lparr>waiting := waiting st2, header := header st2\<rparr>, evs)"
  by (auto simp: parse_def parseHeader_def parsePayload_def Let_def
      split: if_splits option.splits sum.splits prod.splits)

lemma parse_payload_clears:
  "parse deps st ch = Inr (st2, evs) \<Longrightarrow> header st \<noteq> None \<Longrightarrow> header st2 = None"
  by (auto simp: parse_def parsePayload_def Let_def
      split: if_splits option.splits sum.splits prod.splits)

lemma parse_hinv:
  "parse deps st ch = Inr (st2, evs) \<Longrightarrow> hinv deps st \<Longrightarrow> hinv deps st2"
  by (auto simp: parse_def parseHeader_def parsePayload_def hinv_def Let_def
      split: if_splits option.splits sum.splits prod.splits)

lemma parse_no_fault:
  assumes "deps_ok deps" "hinv deps st" "length ch = waiting st"
  shows "\<exists>st2 evs. parse deps st ch = Inr (st2, evs)"
proof -
  have "parse deps st ch \<noteq> Inl f" for f
  proof (cases "header st")
    case None
    then have l: "length ch = 24" using assms(2,3) by (simp add: hinv_def)
    then have r: "readUInt32LE ch 0 \<noteq> Inl f" "readUInt32LE ch 16 \<noteq> Inl f"
      "readUInt32LE ch 20 \<noteq> Inl f" for f
      by (simp_all add: readUInt32LE_def)
    show ?thesis
      using None l r assms(1)
      by (auto simp: parse_def parseHeader_def deps_ok_def Let_def
          split: if_splits option.splits sum.splits prod.splits)
  next
    case (Some h)
    then have l: "length ch \<le> MAX_MESSAGE deps" using assms(2,3) by (simp add: hinv_def)
    have r: "readUInt32LE (hash256 deps ch) 0 \<noteq> Inl f" for f
      using assms(1) by (simp add: readUInt32LE_def deps_ok_def)
    show ?thesis
      using Some l r
      by (auto simp: parse_def parsePayload_def Let_def
          split: if_splits option.splits sum.splits prod.splits)
  qed
  then show ?thesis by (cases "parse deps st ch") auto
qed


subsection \<open>The loop returns, and what it returns\<close>

lemma loop_feed_loop:
  "loop deps st tr s \<Longrightarrow> feed_loop deps st acc = Some (Inr (s, acc @ tr))"
proof (induction arbitrary: acc rule: loop.induct)
  case (stop st)
  then show ?case by (subst feed_loop.simps) simp
next
  case (step st chunk pend st2 evs tr s)
  show ?case
    using step.hyps(1,2,3) step.IH
    by (subst feed_loop.simps) (simp add: Let_def)
qed

lemma step_wf:
  assumes "wf_parser deps st" "waiting st \<le> total st"
    and "take_chunk (waiting st) (pending st) [] = Inr (chunk, pend)"
    and "parse deps (st\<lparr>pending := pend, total := total st - length chunk\<rparr>) chunk = Inr (st2, evs)"
  shows "wf_parser deps st2" and "chunk = take (waiting st) (concat (pending st))"
    and "concat (pending st2) = drop (waiting st) (concat (pending st))"
    and "total st2 = total st - waiting st" and "network st2 = network st"
proof -
  have t: "total st = length (concat (pending st))" and h: "hinv deps st"
    using assms(1) by (simp_all add: wf_parser_def)
  obtain p' where "take_chunk (waiting st) (pending st) [] =
        Inr ([] @ take (waiting st - length ([] :: byte list)) (concat (pending st)), p')"
      and "concat p' = drop (waiting st - length ([] :: byte list)) (concat (pending st))"
    using take_chunk_spec [of "[]" "waiting st" "pending st"] assms(2) t by auto
  then have c: "chunk = take (waiting st) (concat (pending st))"
    and p: "concat pend = drop (waiting st) (concat (pending st))"
    using assms(3) by simp_all
  have lc: "length chunk = waiting st" using c assms(2) t by simp
  let ?st1 = "st\<lparr>pending := pend, total := total st - length chunk\<rparr>"
  have sh: "st2 = ?st1\<lparr>waiting := waiting st2, header := header st2\<rparr>"
    by (rule parse_shape [OF assms(4)])
  have "hinv deps ?st1" using h by (simp add: hinv_def split: option.splits)
  then have h2: "hinv deps st2" by (rule parse_hinv [OF assms(4)])
  have pe: "pending st2 = pend" and to: "total st2 = total st - length chunk"
    and nw: "network st2 = network st"
    by (subst sh, simp)+
  show "chunk = take (waiting st) (concat (pending st))" by (rule c)
  show "concat (pending st2) = drop (waiting st) (concat (pending st))" using pe p by simp
  show "total st2 = total st - waiting st" using to lc by simp
  show "network st2 = network st" by (rule nw)
  show "wf_parser deps st2" using h2 pe p to lc t by (simp add: wf_parser_def)
qed

lemma loop_wf:
  "loop deps st tr s \<Longrightarrow> wf_parser deps st \<Longrightarrow> wf_parser deps s \<and> total s < waiting s"
proof (induction rule: loop.induct)
  case (stop st)
  then show ?case by simp
next
  case (step st chunk pend st2 evs tr s)
  have "wf_parser deps st2" by (rule step_wf(1) [OF step.prems step.hyps(1,2,3)])
  then show ?case by (rule step.IH)
qed

lemma loop_exists:
  assumes ok: "deps_ok deps"
  shows "wf_parser deps st \<Longrightarrow> \<exists>tr s. loop deps st tr s"
proof (induction "2 * total st + (if header st = None then 0 else 1)" arbitrary: st
    rule: less_induct)
  case less
  show ?case
  proof (cases "total st < waiting st")
    case True
    then show ?thesis using loop.stop by blast
  next
    case False
    then have ge: "waiting st \<le> total st" by simp
    have t: "total st = length (concat (pending st))" and h: "hinv deps st"
      using less.prems by (simp_all add: wf_parser_def)
    obtain pend where tc: "take_chunk (waiting st) (pending st) [] =
        Inr (take (waiting st) (concat (pending st)), pend)"
      using take_chunk_spec [of "[]" "waiting st" "pending st"] ge t by auto
    let ?chunk = "take (waiting st) (concat (pending st))"
    let ?st1 = "st\<lparr>pending := pend, total := total st - length ?chunk\<rparr>"
    have lc: "length ?chunk = waiting st" using ge t by simp
    have h1: "hinv deps ?st1" using h by (simp add: hinv_def split: option.splits)
    have lc1: "length ?chunk = waiting ?st1" using lc by simp
    obtain st2 evs where pr: "parse deps ?st1 ?chunk = Inr (st2, evs)"
      using parse_no_fault [OF ok h1 lc1] by blast
    have wf2: "wf_parser deps st2" and t2: "total st2 = total st - waiting st"
      using step_wf [OF less.prems ge tc pr] by simp_all
    have dec: "2 * total st2 + (if header st2 = None then 0 else 1)
        < 2 * total st + (if header st = None then 0 else 1)"
    proof (cases "header st")
      case None
      then have "waiting st = 24" using h by (simp add: hinv_def)
      then have e: "total st = total st2 + 24" using t2 ge by simp
      show ?thesis unfolding e by simp
    next
      case (Some hd)
      then have "header st2 = None"
        using parse_payload_clears [OF pr] by simp
      then show ?thesis using t2 Some by simp
    qed
    obtain tr s where "loop deps st2 tr s"
      using less.hyps [OF dec wf2] by blast
    then show ?thesis using loop.step [OF ge tc pr] by blast
  qed
qed

lemma loop_similar:
  assumes ok: "deps_ok deps"
  shows "loop deps st tr s \<Longrightarrow> similar st st' \<Longrightarrow> wf_parser deps st \<Longrightarrow> wf_parser deps st' \<Longrightarrow>
    \<exists>s'. loop deps st' tr s' \<and> similar s s'"
proof (induction arbitrary: st' rule: loop.induct)
  case (stop st)
  then have "total st' < waiting st'" by (simp add: similar_def)
  then show ?case using stop.prems(1) loop.stop by blast
next
  case (step st chunk pend st2 evs tr s)
  have sim: "network st = network st'" "waiting st = waiting st'" "header st = header st'"
    "total st = total st'" "concat (pending st) = concat (pending st')"
    using step.prems(1) by (simp_all add: similar_def)
  have ge': "waiting st' \<le> total st'" using step.hyps(1) sim by simp
  have t': "total st' = length (concat (pending st'))"
    using step.prems(3) by (simp add: wf_parser_def)
  note a = step_wf [OF step.prems(2) step.hyps(1,2,3)]
  obtain pend' where tc': "take_chunk (waiting st') (pending st') [] =
        Inr (take (waiting st') (concat (pending st')), pend')"
    using take_chunk_spec [of "[]" "waiting st'" "pending st'"] ge' t' by auto
  have ch: "take (waiting st') (concat (pending st')) = chunk" using a(2) sim by simp
  let ?st1' = "st'\<lparr>pending := pend', total := total st' - length chunk\<rparr>"
  let ?st2' = "?st1'\<lparr>waiting := waiting st2, header := header st2\<rparr>"
  have pr': "parse deps ?st1' chunk = Inr (?st2', evs)"
    by (rule parse_cong [OF step.hyps(3)]) (simp_all add: sim)
  note tc'' = tc' [unfolded ch]
  note b = step_wf [OF step.prems(3) ge' tc'' pr']
  have "similar st2 ?st2'"
    using a(3,4,5) b(3,4,5) sim by (simp add: similar_def)
  then obtain s' where l: "loop deps ?st2' tr s'" and s: "similar s s'"
    using step.IH [OF _ a(1) b(1)] by blast
  have "loop deps st'
      (Step (header st' = None) chunk (header st' = None \<and> header ?st2' \<noteq> None) evs # tr) s'"
    by (rule loop.step [OF ge' tc'' pr' l])
  then show ?case using s sim by auto
qed

lemma loop_push:
  "loop deps st tr s \<Longrightarrow> loop deps (push s d) tr' s' \<Longrightarrow>
   loop deps (push st d) (tr @ tr') s'"
proof (induction rule: loop.induct)
  case (stop st)
  then show ?case by simp
next
  case (step st chunk pend st2 evs tr s)
  have lc: "length chunk = waiting st"
    using take_chunk_length [OF step.hyps(2)] by simp
  have ge: "waiting (push st d) \<le> total (push st d)"
    using step.hyps(1) by (simp add: push_def)
  have tc: "take_chunk (waiting (push st d)) (pending (push st d)) [] = Inr (chunk, pend @ [d])"
    using take_chunk_append [OF step.hyps(2)] by (simp add: push_def)
  let ?st1 = "st\<lparr>pending := pend, total := total st - length chunk\<rparr>"
  have sh: "st2 = ?st1\<lparr>waiting := waiting st2, header := header st2\<rparr>"
    by (rule parse_shape [OF step.hyps(3)])
  have e: "(push st d)\<lparr>pending := pend @ [d], total := total (push st d) - length chunk\<rparr>
      = push ?st1 d"
    using step.hyps(1) lc by (simp add: push_def)
  have "parse deps (push ?st1 d) chunk
      = Inr ((push ?st1 d)\<lparr>waiting := waiting st2, header := header st2\<rparr>, evs)"
    by (rule parse_cong [OF step.hyps(3)]) (simp_all add: push_def)
  moreover have "(push ?st1 d)\<lparr>waiting := waiting st2, header := header st2\<rparr> = push st2 d"
    by (subst (2) sh) (simp add: push_def)
  ultimately have pr: "parse deps
      ((push st d)\<lparr>pending := pend @ [d], total := total (push st d) - length chunk\<rparr>) chunk
      = Inr (push st2 d, evs)"
    using e by simp
  have "loop deps (push st d)
      (Step (header (push st d) = None) chunk
         (header (push st d) = None \<and> header (push st2 d) \<noteq> None) evs # (tr @ tr')) s'"
    by (rule loop.step [OF ge tc pr step.IH [OF step.prems]])
  then show ?case by (simp add: push_def)
qed

lemma loop_last:
  "loop deps st tr s \<Longrightarrow>
   (header s \<noteq> None) = (if tr = [] then header st \<noteq> None else header_parsed (last tr))"
proof (induction rule: loop.induct)
  case (stop st)
  then show ?case by simp
next
  case (step st chunk pend st2 evs tr s)
  have "header st \<noteq> None \<Longrightarrow> header st2 = None"
    using parse_payload_clears [OF step.hyps(3)] by simp
  then show ?case using step.IH by (cases "header st") auto
qed


subsection \<open>Sequences of feed calls\<close>

lemma feed_push: "feed deps st d = feed_loop deps (push st d) []"
  by (simp add: feed_def push_def)

lemma loop_feed: "loop deps (push st d) tr s \<Longrightarrow> feed deps st d = Some (Inr (s, tr))"
  using loop_feed_loop [of deps "push st d" tr s "[]"] by (simp add: feed_push)

lemma wf_push: "wf_parser deps st \<Longrightarrow> wf_parser deps (push st d)"
  by (simp add: wf_parser_def hinv_def push_def split: option.splits)

lemma similar_trans: "similar a b \<Longrightarrow> similar b c \<Longrightarrow> similar a c"
  by (simp add: similar_def)

lemma feed_total:
  assumes ok: "deps_ok deps" and w: "wf_parser deps st"
  shows "\<exists>s tr. loop deps (push st d) tr s \<and> feed deps st d = Some (Inr (s, tr))
           \<and> wf_parser deps s \<and> total s < waiting s"
proof -
  obtain tr s where l: "loop deps (push st d) tr s"
    using loop_exists [OF ok wf_push [OF w]] by blast
  then show ?thesis using loop_feed [OF l] loop_wf [OF l wf_push [OF w]] by blast
qed

lemma feeds_main:
  assumes ok: "deps_ok deps"
  shows "wf_parser deps st \<Longrightarrow> total st < waiting st \<Longrightarrow>
    \<exists>s tr s'. feeds deps st ds = Some (Inr (s, tr))
      \<and> feed deps st (concat ds) = Some (Inr (s', tr))
      \<and> similar s s' \<and> wf_parser deps s \<and> total s < waiting s
      \<and> (header s \<noteq> None) = (if tr = [] then header st \<noteq> None else header_parsed (last tr))"
proof (induction ds arbitrary: st)
  case Nil
  have "loop deps (push st []) [] (push st [])"
    using Nil.prems(2) by (intro loop.stop) (simp add: push_def)
  then have "feed deps st [] = Some (Inr (push st [], []))" by (rule loop_feed)
  moreover have "similar st (push st [])" by (simp add: similar_def push_def)
  ultimately show ?case using Nil.prems by auto
next
  case (Cons d ds)
  obtain s1 t1 where l1: "loop deps (push st d) t1 s1"
    and f1: "feed deps st d = Some (Inr (s1, t1))"
    and w1: "wf_parser deps s1" and r1: "total s1 < waiting s1"
    using feed_total [OF ok Cons.prems(1)] by blast
  obtain s2 t2 s2' where fs: "feeds deps s1 ds = Some (Inr (s2, t2))"
    and f2: "feed deps s1 (concat ds) = Some (Inr (s2', t2))"
    and sim2: "similar s2 s2'" and w2: "wf_parser deps s2" and r2: "total s2 < waiting s2"
    and h2: "(header s2 \<noteq> None) = (if t2 = [] then header s1 \<noteq> None else header_parsed (last t2))"
    using Cons.IH [OF w1 r1] by blast
  obtain sx tx where lx: "loop deps (push s1 (concat ds)) tx sx"
    and fx: "feed deps s1 (concat ds) = Some (Inr (sx, tx))"
    using feed_total [OF ok w1] by blast
  have l2: "loop deps (push s1 (concat ds)) t2 s2'" using lx fx f2 by simp
  have l12: "loop deps (push (push st d) (concat ds)) (t1 @ t2) s2'"
    by (rule loop_push [OF l1 l2])
  have sim: "similar (push (push st d) (concat ds)) (push st (d @ concat ds))"
    by (simp add: similar_def push_def)
  obtain s3 where l3: "loop deps (push st (d @ concat ds)) (t1 @ t2) s3"
    and sim3: "similar s2' s3"
    using loop_similar [OF ok l12 sim wf_push [OF wf_push [OF Cons.prems(1)]]
        wf_push [OF Cons.prems(1)]] by blast
  have f3: "feed deps st (concat (d # ds)) = Some (Inr (s3, t1 @ t2))"
    using loop_feed [OF l3] by simp
  have fs': "feeds deps st (d # ds) = Some (Inr (s2, t1 @ t2))"
    using f1 fs by simp
  have h1: "(header s1 \<noteq> None) = (if t1 = [] then header st \<noteq> None else header_parsed (last t1))"
    using loop_last [OF l1] by (simp add: push_def)
  have h: "(header s2 \<noteq> None) =
      (if t1 @ t2 = [] then header st \<noteq> None else header_parsed (last (t1 @ t2)))"
    using h1 h2 by simp
  show ?case
    using fs' f3 similar_trans [OF sim2 sim3] w2 r2 h by blast
qed

lemma wf_Parser: "wf_parser deps (Parser nw)" "total (Parser nw) < waiting (Parser nw)"
  "header (Parser nw) = None"
  by (simp_all add: wf_parser_def hinv_def Parser_def)

text \<open>
  C4. Feeding the pieces of any partition of a byte sequence to a fresh parser, in
  order, returns and yields the same log, hence the same sequence of packet and
  error notifications, as feeding the whole sequence in one call.
\<close>

theorem feed_partition_invariant:
  assumes "deps_ok deps"
  shows "\<exists>s tr s' tr'.
      feeds deps (Parser nw) pieces = Some (Inr (s, tr))
    \<and> feed deps (Parser nw) (concat pieces) = Some (Inr (s', tr'))
    \<and> tr = tr' \<and> notifications tr = notifications tr'"
  using feeds_main [OF assms wf_Parser(1,2), of nw pieces] by blast

theorem feed_partition_invariant_witness:
  "deps_ok \<lparr>MAX_MESSAGE = 100, hash256 = (\<lambda>d. replicate 32 (of_nat (length d))),
            fromRaw = (\<lambda>c d. (Inr (c, d) :: unit + string \<times> byte list))\<rparr>
   \<and> (\<exists>s s'.
        feeds \<lparr>MAX_MESSAGE = 100, hash256 = (\<lambda>d. replicate 32 (of_nat (length d))),
               fromRaw = (\<lambda>c d. (Inr (c, d) :: unit + string \<times> byte list))\<rparr>
          (Parser \<lparr>magic = 0x04030201, pow_limit = 0, keccakPow_limit = 0\<rparr>)
          [ [1, 2, 3, 4, 112], [105, 110, 103, 0, 0, 0, 0, 0, 0, 0, 0, 2, 0, 0, 0, 2, 2, 2, 2, 7], [7]]
          = Some (Inr (s, [Step True [1, 2, 3, 4, 112, 105, 110, 103, 0, 0, 0, 0, 0, 0, 0, 0, 2, 0, 0, 0, 2, 2, 2, 2] True [],
                   Step False [7, 7] False [Packet (''ping'', [7, 7])]]))
      \<and> feed \<lparr>MAX_MESSAGE = 100, hash256 = (\<lambda>d. replicate 32 (of_nat (length d))),
               fromRaw = (\<lambda>c d. (Inr (c, d) :: unit + string \<times> byte list))\<rparr>
          (Parser \<lparr>magic = 0x04030201, pow_limit = 0, keccakPow_limit = 0\<rparr>)
          (concat [ [1, 2, 3, 4, 112], [105, 110, 103, 0, 0, 0, 0, 0, 0, 0, 0, 2, 0, 0, 0, 2, 2, 2, 2, 7], [7]])
          = Some (Inr (s', [Step True [1, 2, 3, 4, 112, 105, 110, 103, 0, 0, 0, 0, 0, 0, 0, 0, 2, 0, 0, 0, 2, 2, 2, 2] True [],
                   Step False [7, 7] False [Packet (''ping'', [7, 7])]])))"
proof -
  let ?D = "\<lparr>MAX_MESSAGE = 100, hash256 = (\<lambda>d. replicate 32 (of_nat (length d))),
            fromRaw = (\<lambda>c d. (Inr (c, d) :: unit + string \<times> byte list))\<rparr>"
  let ?N = "\<lparr>magic = 0x04030201, pow_limit = 0, keccakPow_limit = 0\<rparr>"
  let ?P = "[ [1, 2, 3, 4, 112], [105, 110, 103, 0, 0, 0, 0, 0, 0, 0, 0, 2, 0, 0, 0, 2, 2, 2, 2, 7], [7 :: byte]]"
  have ok: "deps_ok ?D" by (simp add: deps_ok_def)
  have e: "feeds ?D (Parser ?N) ?P
      = Some (Inr (\<lparr>network = ?N, pending = [], total = 0, waiting = 24, header = None\<rparr>,
                   [Step True [1, 2, 3, 4, 112, 105, 110, 103, 0, 0, 0, 0, 0, 0, 0, 0, 2, 0, 0, 0, 2, 2, 2, 2] True [],
                   Step False [7, 7] False [Packet (''ping'', [7, 7])]]))"
    by code_simp
  show ?thesis
    using feed_partition_invariant [OF ok, of ?N ?P] ok e by auto
qed

subsection \<open>Single steps on a given header\<close>

lemma cmdLength_le:
  "i \<le> j \<Longrightarrow> j + 4 < length data \<Longrightarrow> data ! (j + 4) = 0 \<Longrightarrow> cmdLength data i \<le> j"
proof (induction data i rule: cmdLength.induct)
  case (1 data i)
  show ?case
  proof (cases "byteAt data (i + 4) \<noteq> Some 0 \<and> i < 12")
    case True
    have "i \<noteq> j" using True 1(3,4) by (auto simp: byteAt_def)
    then have "i + 1 \<le> j" using 1(2) by simp
    then have "cmdLength data (i + 1) \<le> j" by (rule 1(1) [OF True _ 1(3,4)])
    then show ?thesis using True by (simp add: cmdLength.simps [of data i])
  next
    case False
    then have "cmdLength data i = i" by (subst cmdLength.simps) auto
    then show ?thesis using 1(2) by simp
  qed
qed

lemma cmdLength_terminated:
  assumes "length hdr = 24" "\<exists>j<12. hdr ! (4 + j) = 0"
  shows "cmdLength hdr 0 \<noteq> 12"
proof -
  obtain j where j: "j < 12" "hdr ! (j + 4) = 0" using assms(2) by (auto simp: add.commute)
  have "cmdLength hdr 0 \<le> j" using j assms(1) by (intro cmdLength_le) simp_all
  then show ?thesis using j(1) by simp
qed

lemma parse_header_oversize:
  assumes "header st = None" "24 \<le> MAX_MESSAGE deps" "length hdr = 24"
    "readUInt32LE hdr 0 = Inr (magic (network st))" "cmdLength hdr 0 \<noteq> 12"
    "readUInt32LE hdr 16 = Inr sz" "MAX_MESSAGE deps < unat sz"
  shows "parse deps st hdr = Inr (st\<lparr>waiting := 24, header := None\<rparr>, [Error (OversizePacket sz)])"
  using assms by (simp add: parse_def parseHeader_def Let_def)

lemma parse_header_accepted:
  assumes "header st = None" "24 \<le> MAX_MESSAGE deps" "length hdr = 24"
    "readUInt32LE hdr 0 = Inr (magic (network st))" "cmdLength hdr 0 \<noteq> 12"
    "readUInt32LE hdr 16 = Inr sz" "unat sz \<le> MAX_MESSAGE deps"
    "readUInt32LE hdr 20 = Inr ck"
  shows "parse deps st hdr =
     Inr (st\<lparr>waiting := unat sz,
              header := Some \<lparr>cmd = toString_ascii hdr 4 (4 + cmdLength hdr 0),
                               size_hdr = sz, checksum = ck\<rparr>\<rparr>, [])"
  using assms by (simp add: parse_def parseHeader_def Let_def)

lemma parse_bad_checksum:
  assumes "header st = Some h" "length payload \<le> MAX_MESSAGE deps"
    "readUInt32LE (hash256 deps payload) 0 = Inr got" "got \<noteq> checksum h"
  shows "parse deps st payload =
     Inr (st\<lparr>waiting := 24, header := None\<rparr>, [Error (InvalidChecksum got)])"
  using assms by (simp add: parse_def)

lemma loop_one_step:
  assumes ok: "deps_ok deps" and w: "wf_parser deps st" and ge: "waiting st \<le> total st"
    and pr: "parse deps st (take (waiting st) (concat (pending st))) = Inr (st2, evs)"
    and w3: "wf_parser deps st3"
    and e3: "network st3 = network st" "waiting st3 = waiting st2" "header st3 = header st2"
      "total st3 = total st - waiting st"
      "concat (pending st3) = drop (waiting st) (concat (pending st))"
    and l3: "loop deps st3 tr s"
  shows "\<exists>s'. loop deps st
             (Step (header st = None) (take (waiting st) (concat (pending st)))
                (header st = None \<and> header st2 \<noteq> None) evs # tr) s'
           \<and> similar s s'"
proof -
  have t: "total st = length (concat (pending st))" using w by (simp add: wf_parser_def)
  let ?chunk = "take (waiting st) (concat (pending st))"
  obtain pend where tc: "take_chunk (waiting st) (pending st) [] = Inr (?chunk, pend)"
    using take_chunk_spec [of "[]" "waiting st" "pending st"] ge t by auto
  let ?st1 = "st\<lparr>pending := pend, total := total st - length ?chunk\<rparr>"
  let ?st2 = "?st1\<lparr>waiting := waiting st2, header := header st2\<rparr>"
  have pr1: "parse deps ?st1 ?chunk = Inr (?st2, evs)"
    by (rule parse_cong [OF pr]) simp_all
  note a = step_wf [OF w ge tc pr1]
  have "similar st3 ?st2" using e3 a(3,4,5) by (simp add: similar_def)
  then obtain s' where l: "loop deps ?st2 tr s'" and sim: "similar s s'"
    using loop_similar [OF ok l3 _ w3 a(1)] by blast
  have "loop deps st
      (Step (header st = None) ?chunk (header st = None \<and> header ?st2 \<noteq> None) evs # tr) s'"
    by (rule loop.step [OF ge tc pr1 l])
  then show ?thesis using sim by auto
qed

subsection \<open>The state at rest\<close>

lemma cmdLength_stops:
  "i \<le> 12 \<Longrightarrow>
   cmdLength data i \<le> 12
   \<and> (cmdLength data i < 12 \<longrightarrow> byteAt data (cmdLength data i + 4) = Some 0)"
proof (induction data i rule: cmdLength.induct)
  case (1 data i)
  show ?case
  proof (cases "byteAt data (i + 4) \<noteq> Some 0 \<and> i < 12")
    case True
    then have e: "cmdLength data i = cmdLength data (i + 1)"
      by (subst cmdLength.simps) simp
    have "i + 1 \<le> 12" using True by simp
    then show ?thesis unfolding e by (rule 1(1) [OF True])
  next
    case False
    then have e: "cmdLength data i = i" by (subst cmdLength.simps) auto
    show ?thesis unfolding e using False 1(2) by auto
  qed
qed

lemma cmdLength_iff:
  assumes "length data = 24"
  shows "(cmdLength data 0 \<noteq> 12) = (\<exists>j<12. data ! (4 + j) = 0)"
proof
  assume "cmdLength data 0 \<noteq> 12"
  then have lt: "cmdLength data 0 < 12"
    and "byteAt data (cmdLength data 0 + 4) = Some 0"
    using cmdLength_stops [of 0 data] by auto
  then have "data ! (4 + cmdLength data 0) = 0"
    by (auto simp: byteAt_def add.commute split: if_splits)
  then show "\<exists>j<12. data ! (4 + j) = 0" using lt by blast
next
  assume "\<exists>j<12. data ! (4 + j) = 0"
  then show "cmdLength data 0 \<noteq> 12" by (rule cmdLength_terminated [OF assms])
qed

lemma parse_header_iff:
  assumes "header st1 = None" "length ch = 24" "24 \<le> MAX_MESSAGE deps"
    and "parse deps st1 ch = Inr (st2, evs)"
  shows "(header st2 \<noteq> None) = header_accepted deps (network st1) ch"
    and "header st2 \<noteq> None \<Longrightarrow>
         evs = [] \<and> (\<exists>sz ck. readUInt32LE ch 16 = Inr sz \<and> readUInt32LE ch 20 = Inr ck
            \<and> header st2 = Some \<lparr>cmd = toString_ascii ch 4 (4 + cmdLength ch 0),
                                   size_hdr = sz, checksum = ck\<rparr>)"
    and "header st2 = None \<Longrightarrow> \<exists>e. evs = [Error e]"
proof -
  note c = cmdLength_iff [OF assms(2)]
  obtain mg sz ck where r: "readUInt32LE ch 0 = Inr mg" "readUInt32LE ch 16 = Inr sz"
    "readUInt32LE ch 20 = Inr ck"
    using assms(2) by (simp add: readUInt32LE_def)
  show "(header st2 \<noteq> None) = header_accepted deps (network st1) ch"
    using assms r c
    by (auto simp: parse_def parseHeader_def header_accepted_def Let_def split: if_splits)
  show "header st2 \<noteq> None \<Longrightarrow>
         evs = [] \<and> (\<exists>sz ck. readUInt32LE ch 16 = Inr sz \<and> readUInt32LE ch 20 = Inr ck
            \<and> header st2 = Some \<lparr>cmd = toString_ascii ch 4 (4 + cmdLength ch 0),
                                   size_hdr = sz, checksum = ck\<rparr>)"
    using assms r
    by (auto simp: parse_def parseHeader_def Let_def split: if_splits)
  show "header st2 = None \<Longrightarrow> \<exists>e. evs = [Error e]"
    using assms r
    by (auto simp: parse_def parseHeader_def Let_def split: if_splits)
qed

lemma loop_nil: "loop deps st [] s \<Longrightarrow> s = st"
  by (erule loop.cases) simp_all

lemma parse_network: "parse deps st ch = Inr (st2, evs) \<Longrightarrow> network st2 = network st"
  by (auto simp: parse_def parseHeader_def parsePayload_def Let_def
      split: if_splits option.splits sum.splits prod.splits)

lemma loop_network: "loop deps st tr s \<Longrightarrow> network s = network st"
proof (induction rule: loop.induct)
  case (stop st)
  then show ?case by simp
next
  case (step st chunk pend st2 evs tr s)
  then show ?case using parse_network [OF step.hyps(3)] by simp
qed

lemma loop_last_step:
  "loop deps st tr s \<Longrightarrow> wf_parser deps st \<Longrightarrow> tr \<noteq> [] \<Longrightarrow>
   last_step deps (network st) tr s"
proof (induction rule: loop.induct)
  case (stop st)
  then show ?case by simp
next
  case (step st chunk pend st2 evs tr s)
  let ?st1 = "st\<lparr>pending := pend, total := total st - length chunk\<rparr>"
  note a = step_wf [OF step.prems(1) step.hyps(1,2,3)]
  show ?case
  proof (cases "tr = []")
    case True
    then have s: "s = st2" using loop_nil step.hyps(4) by blast
    have h1: "hinv deps ?st1"
      using step.prems(1) by (simp add: wf_parser_def hinv_def split: option.splits)
    have lc: "length chunk = waiting ?st1"
      using take_chunk_length [OF step.hyps(2)] by simp
    show ?thesis
      unfolding last_step_def
      by (rule exI [of _ ?st1], rule exI [of _ st2])
         (use True s h1 lc step.hyps(3) in simp)
  next
    case False
    then have "last_step deps (network st2) tr s" by (rule step.IH [OF a(1)])
    then show ?thesis using False a(5) by (simp add: last_step_def)
  qed
qed


lemma feeds_last:
  assumes ok: "deps_ok deps"
  shows "wf_parser deps st \<Longrightarrow> total st < waiting st \<Longrightarrow>
    feeds deps st ds = Some (Inr (s, tr)) \<Longrightarrow>
    network s = network st \<and> (tr = [] \<longrightarrow> header s = header st)
    \<and> (tr \<noteq> [] \<longrightarrow> last_step deps (network st) tr s)"
proof (induction ds arbitrary: st s tr)
  case Nil
  then show ?case by simp
next
  case (Cons d ds)
  obtain s1 t1 where l1: "loop deps (push st d) t1 s1"
    and f1: "feed deps st d = Some (Inr (s1, t1))"
    and w1: "wf_parser deps s1" and r1: "total s1 < waiting s1"
    using feed_total [OF ok Cons.prems(1)] by blast
  obtain t2 where f2: "feeds deps s1 ds = Some (Inr (s, t2))" and tr: "tr = t1 @ t2"
    using Cons.prems(3) f1 by (auto split: option.splits sum.splits)
  note ih = Cons.IH [OF w1 r1 f2]
  have n1: "network s1 = network st" using loop_network [OF l1] by (simp add: push_def)
  have n: "network s = network st" using ih n1 by simp
  show ?case
  proof (cases "t2 = []")
    case False
    then have "last_step deps (network st) t2 s" using ih n1 by simp
    then have "last_step deps (network st) tr s"
      using False by (simp add: last_step_def tr)
    then show ?thesis using n False tr by simp
  next
    case True
    then have hs: "header s = header s1" using ih by simp
    show ?thesis
    proof (cases "t1 = []")
      case t1: True
      then have "s1 = push st d" using loop_nil l1 by blast
      then show ?thesis using n hs t1 True tr by (simp add: push_def)
    next
      case t1: False
      have "last_step deps (network (push st d)) t1 s1"
        by (rule loop_last_step [OF l1 wf_push [OF Cons.prems(1)] t1])
      then have "last_step deps (network st) tr s"
        using hs True by (simp add: last_step_def tr push_def)
      then show ?thesis using n t1 tr by simp
    qed
  qed
qed

text \<open>
  C5. After any sequence of \<open>feed\<close> calls on a fresh parser: \<open>total < waiting\<close>. A
  header is present exactly when a step was completed and the last one was a
  successful header parse: \<open>parse\<close> was called while no header was held, on a 24-byte
  chunk with the network's magic, a NUL within the command field and a size of at
  most \<open>MAX_MESSAGE\<close>; that step then emitted nothing, whereas a last step that took a
  chunk for a header and left none emitted exactly one error. \<open>waiting\<close> is 24 when
  no header is present, and otherwise the size stored in the header, which is the
  size read from that chunk and at most \<open>MAX_MESSAGE\<close>.
\<close>

theorem parser_invariant_at_rest:
  assumes "deps_ok deps"
  shows "\<exists>s tr.
      feeds deps (Parser nw) pieces = Some (Inr (s, tr))
    \<and> total s < waiting s
    \<and> (header s \<noteq> None) =
        (tr \<noteq> [] \<and> awaited_header (last tr)
         \<and> header_accepted deps nw (consumed (last tr)))
    \<and> (header s \<noteq> None) = (tr \<noteq> [] \<and> header_parsed (last tr))
    \<and> (header s \<noteq> None \<longrightarrow> emitted (last tr) = [])
    \<and> (tr \<noteq> [] \<and> awaited_header (last tr) \<and> header s = None
         \<longrightarrow> (\<exists>e. emitted (last tr) = [Error e]))
    \<and> (case header s of
          None \<Rightarrow> waiting s = 24
        | Some h \<Rightarrow> waiting s = unat (size_hdr h) \<and> waiting s \<le> MAX_MESSAGE deps
                    \<and> readUInt32LE (consumed (last tr)) 16 = Inr (size_hdr h)
                    \<and> readUInt32LE (consumed (last tr)) 20 = Inr (checksum h))"
proof -
  obtain s tr where f: "feeds deps (Parser nw) pieces = Some (Inr (s, tr))"
    and w: "wf_parser deps s" and r: "total s < waiting s"
    using feeds_main [OF assms wf_Parser(1,2), of nw pieces] by blast
  note fl = feeds_last [OF assms wf_Parser(1,2) f]
  have m: "24 \<le> MAX_MESSAGE deps" using assms by (simp add: deps_ok_def)
  have wt: "case header s of
          None \<Rightarrow> waiting s = 24
        | Some h \<Rightarrow> waiting s = unat (size_hdr h) \<and> waiting s \<le> MAX_MESSAGE deps"
    using w by (simp add: wf_parser_def hinv_def split: option.splits)
  have main: "(header s \<noteq> None) =
        (tr \<noteq> [] \<and> awaited_header (last tr)
         \<and> header_accepted deps nw (consumed (last tr)))
    \<and> (header s \<noteq> None) = (tr \<noteq> [] \<and> header_parsed (last tr))
    \<and> (header s \<noteq> None \<longrightarrow> emitted (last tr) = [])
    \<and> (tr \<noteq> [] \<and> awaited_header (last tr) \<and> header s = None
         \<longrightarrow> (\<exists>e. emitted (last tr) = [Error e]))
    \<and> (\<forall>h. header s = Some h \<longrightarrow>
           readUInt32LE (consumed (last tr)) 16 = Inr (size_hdr h)
         \<and> readUInt32LE (consumed (last tr)) 20 = Inr (checksum h))"
  proof (cases "tr = []")
    case True
    then have "header s = None" using fl by (simp add: wf_Parser(3))
    then show ?thesis using True by simp
  next
    case False
    then have "last_step deps nw tr s" using fl by (simp add: Parser_def)
    then obtain st1 st2 where h1: "hinv deps st1" and n1: "network st1 = nw"
      and aw: "awaited_header (last tr) = (header st1 = None)"
      and lc: "length (consumed (last tr)) = waiting st1"
      and pr: "parse deps st1 (consumed (last tr)) = Inr (st2, emitted (last tr))"
      and hp: "header_parsed (last tr) = (header st1 = None \<and> header st2 \<noteq> None)"
      and hs: "header s = header st2"
      unfolding last_step_def by (elim exE conjE) (rule that)
    show ?thesis
    proof (cases "header st1")
      case None
      then have l24: "length (consumed (last tr)) = 24"
        using h1 lc by (simp add: hinv_def)
      note p = parse_header_iff [OF None l24 m pr]
      show ?thesis
        using False aw hp hs None p(1) p(2) p(3) n1 by auto
    next
      case (Some h0)
      then have "header st2 = None" using parse_payload_clears [OF pr] by simp
      then show ?thesis using False aw hp hs Some by simp
    qed
  qed
  show ?thesis
    using f r main wt by (auto split: option.splits)
qed

theorem parser_invariant_at_rest_witness:
  "deps_ok \<lparr>MAX_MESSAGE = 100, hash256 = (\<lambda>d. replicate 32 (of_nat (length d))),
            fromRaw = (\<lambda>c d. (Inr (c, d) :: unit + string \<times> byte list))\<rparr>
   \<and> (\<exists>s h.
        feeds \<lparr>MAX_MESSAGE = 100, hash256 = (\<lambda>d. replicate 32 (of_nat (length d))),
            fromRaw = (\<lambda>c d. (Inr (c, d) :: unit + string \<times> byte list))\<rparr>
          (Parser \<lparr>magic = 0x04030201, pow_limit = 0, keccakPow_limit = 0\<rparr>)
          [ [1, 2, 3, 4, 112], [105, 110, 103, 0, 0, 0, 0, 0, 0, 0, 0, 2, 0, 0, 0, 2, 2, 2, 2, 7 :: byte] ]
          = Some (Inr (s, [Step True [1, 2, 3, 4, 112, 105, 110, 103, 0, 0, 0, 0, 0, 0, 0, 0, 2, 0, 0, 0, 2, 2, 2, 2] True []]))
      \<and> total s = 1 \<and> waiting s = 2 \<and> header s = Some h \<and> size_hdr h = 2
      \<and> header_accepted \<lparr>MAX_MESSAGE = 100, hash256 = (\<lambda>d. replicate 32 (of_nat (length d))),
            fromRaw = (\<lambda>c d. (Inr (c, d) :: unit + string \<times> byte list))\<rparr>
           \<lparr>magic = 0x04030201, pow_limit = 0, keccakPow_limit = 0\<rparr>
           [1, 2, 3, 4, 112, 105, 110, 103, 0, 0, 0, 0, 0, 0, 0, 0, 2, 0, 0, 0, 2, 2, 2, 2])"
proof -
  let ?D = "\<lparr>MAX_MESSAGE = 100, hash256 = (\<lambda>d. replicate 32 (of_nat (length d))),
            fromRaw = (\<lambda>c d. (Inr (c, d) :: unit + string \<times> byte list))\<rparr>"
  let ?N = "\<lparr>magic = 0x04030201, pow_limit = 0, keccakPow_limit = 0\<rparr>"
  let ?P = "[ [1, 2, 3, 4, 112], [105, 110, 103, 0, 0, 0, 0, 0, 0, 0, 0, 2, 0, 0, 0, 2, 2, 2, 2, 7 :: byte] ]"
  have ok: "deps_ok ?D" by (simp add: deps_ok_def)
  have e: "feeds ?D (Parser ?N) ?P
      = Some (Inr (\<lparr>network = ?N, pending = [ [7] ], total = 1, waiting = 2,
                     header = Some \<lparr>cmd = ''ping'', size_hdr = 2, checksum = 0x02020202\<rparr>\<rparr>,
                   [Step True [1, 2, 3, 4, 112, 105, 110, 103, 0, 0, 0, 0, 0, 0, 0, 0, 2, 0, 0, 0, 2, 2, 2, 2] True []]))"
    by code_simp
  show ?thesis
    using parser_invariant_at_rest [OF ok, of ?N ?P] ok e by auto
qed

subsection \<open>Rejected frames\<close>

lemma loop_rest_short:
  assumes "header st = None" "waiting st = 24" "total st = 0" "length rest < 24"
  shows "loop deps (push st rest) [] (push st rest)"
  using assms by (intro loop.stop) (simp add: push_def)

text \<open>
  C7. A parser that awaits a header with an empty queue is fed a 24-byte header with
  the network's magic, a NUL within the command field and a declared size above
  \<open>MAX_MESSAGE\<close>, followed by any bytes \<open>tail\<close>. The call returns; its first step
  emits exactly one \<open>OversizePacket\<close> error and stores no header; everything after that
  step is what the same parser does when fed \<open>tail\<close> alone, so only the 24 header bytes
  were consumed and the parser goes on working. When \<open>tail\<close> is shorter than a header
  nothing else happens: \<open>waiting = 24\<close>, no header, and \<open>tail\<close> is still queued.
\<close>

theorem oversize_header:
  assumes ok: "deps_ok deps"
    and b: "header st = None" "waiting st = 24" "total st = 0" "concat (pending st) = []"
    and h: "length hdr = 24" "readUInt32LE hdr 0 = Inr (magic (network st))"
      "\<exists>j<12. hdr ! (4 + j) = 0" "readUInt32LE hdr 16 = Inr sz"
    and big: "MAX_MESSAGE deps < unat sz"
  shows "\<exists>s tr s'.
      feed deps st tail = Some (Inr (s, tr))
    \<and> feed deps st (hdr @ tail) = Some (Inr (s', Step True hdr False [Error (OversizePacket sz)] # tr))
    \<and> similar s s'
    \<and> (length tail < 24 \<longrightarrow>
          tr = [] \<and> waiting s' = 24 \<and> header s' = None
          \<and> total s' = length tail \<and> concat (pending s') = tail)"
proof -
  have w: "wf_parser deps st" using b by (simp add: wf_parser_def hinv_def)
  let ?st0 = "push st (hdr @ tail)"
  have w0: "wf_parser deps ?st0" by (rule wf_push [OF w])
  have cp: "concat (pending (push st x)) = x" "total (push st x) = length x"
    "waiting (push st x) = 24" "header (push st x) = None" "network (push st x) = network st"
    for x by (simp_all add: push_def b)
  have c0: "concat (pending ?st0) = hdr @ tail" "total ?st0 = 24 + length tail"
    "waiting ?st0 = 24" "header ?st0 = None" "network ?st0 = network st"
    using h(1) by (simp_all add: cp)
  have ge: "waiting ?st0 \<le> total ?st0" using c0 by simp
  have m: "24 \<le> MAX_MESSAGE deps" using ok by (simp add: deps_ok_def)
  have pr: "parse deps ?st0 (take (waiting ?st0) (concat (pending ?st0)))
      = Inr (?st0\<lparr>waiting := 24, header := None\<rparr>, [Error (OversizePacket sz)])"
    unfolding c0 using h(1)
    by (simp add: parse_header_oversize [OF c0(4) m h(1) _ cmdLength_terminated [OF h(1,3)] h(4) big]
        c0 h(2))
  obtain s tr where l: "loop deps (push st tail) tr s"
    and f: "feed deps st tail = Some (Inr (s, tr))"
    using feed_total [OF ok w] by blast
  have "\<exists>s'. loop deps ?st0
      (Step (header ?st0 = None) (take (waiting ?st0) (concat (pending ?st0)))
         (header ?st0 = None \<and> header (?st0\<lparr>waiting := 24, header := None\<rparr>) \<noteq> None)
         [Error (OversizePacket sz)] # tr) s' \<and> similar s s'"
    by (rule loop_one_step [OF ok w0 ge pr wf_push [OF w] _ _ _ _ _ l])
       (simp_all add: cp h(1))
  then obtain s' where l': "loop deps ?st0 (Step True hdr False [Error (OversizePacket sz)] # tr) s'"
    and sim: "similar s s'" by (auto simp: c0 h(1))
  have f': "feed deps st (hdr @ tail) = Some (Inr (s', Step True hdr False [Error (OversizePacket sz)] # tr))"
    by (rule loop_feed [OF l'])
  have short: "tr = [] \<and> waiting s' = 24 \<and> header s' = None
          \<and> total s' = length tail \<and> concat (pending s') = tail" if "length tail < 24"
  proof -
    have "feed deps st tail = Some (Inr (push st tail, []))"
      by (rule loop_feed [OF loop_rest_short [OF b(1,2,3) that]])
    then have e: "s = push st tail" and t: "tr = []" using f by simp_all
    have "waiting s' = waiting s" "header s' = header s" "total s' = total s"
      "concat (pending s') = concat (pending s)"
      using sim by (simp_all add: similar_def)
    then show ?thesis unfolding e by (simp add: cp t)
  qed
  show ?thesis using f f' sim short by blast
qed


text \<open>
  C6. A parser that awaits a header with an empty queue is fed a frame whose header
  parses (the network's magic, a NUL within the command field, a size within
  \<open>MAX_MESSAGE\<close> that is the length of the payload) and whose checksum field differs
  from the first four bytes, read little-endian, of the digest of the payload,
  followed by any bytes \<open>rest\<close>. The frame takes two steps: the header parse, which
  emits nothing, and the payload step, which emits exactly one \<open>InvalidChecksum\<close> error
  and no packet. After them the parser is where a parser fed \<open>rest\<close> alone would be;
  when \<open>rest\<close> is shorter than a header: \<open>waiting = 24\<close> and no header.
\<close>

theorem bad_checksum_frame:
  assumes ok: "deps_ok deps"
    and b: "header st = None" "waiting st = 24" "total st = 0" "concat (pending st) = []"
    and h: "length hdr = 24" "readUInt32LE hdr 0 = Inr (magic (network st))"
      "\<exists>j<12. hdr ! (4 + j) = 0" "readUInt32LE hdr 16 = Inr sz"
      "unat sz = length payload" "length payload \<le> MAX_MESSAGE deps"
      "readUInt32LE hdr 20 = Inr ck"
    and bad: "readUInt32LE (hash256 deps payload) 0 = Inr got" "got \<noteq> ck"
  shows "\<exists>s tr s'.
      feed deps st rest = Some (Inr (s, tr))
    \<and> feed deps st (hdr @ payload @ rest)
        = Some (Inr (s', Step True hdr True [] # Step False payload False [Error (InvalidChecksum got)] # tr))
    \<and> similar s s'
    \<and> (length rest < 24 \<longrightarrow>
          tr = [] \<and> waiting s' = 24 \<and> header s' = None
          \<and> total s' = length rest \<and> concat (pending s') = rest)"
proof -
  have w: "wf_parser deps st" using b by (simp add: wf_parser_def hinv_def)
  have cp: "concat (pending (push st x)) = x" "total (push st x) = length x"
    "waiting (push st x) = 24" "header (push st x) = None" "network (push st x) = network st"
    for x by (simp_all add: push_def b)
  have m: "24 \<le> MAX_MESSAGE deps" using ok by (simp add: deps_ok_def)
  define H where "H = \<lparr>cmd = toString_ascii hdr 4 (4 + cmdLength hdr 0),
                        size_hdr = sz, checksum = ck\<rparr>"
  let ?st0 = "push st (hdr @ payload @ rest)"
  define mid where "mid = (push st (payload @ rest))\<lparr>waiting := unat sz, header := Some H\<rparr>"
  have cm: "concat (pending mid) = payload @ rest" "total mid = length payload + length rest"
    "waiting mid = length payload" "header mid = Some H" "network mid = network st"
    by (simp_all add: mid_def cp h(5))
  have wm: "wf_parser deps mid"
    using h(5,6) by (simp add: wf_parser_def hinv_def cm H_def)
  obtain s tr where l: "loop deps (push st rest) tr s"
    and f: "feed deps st rest = Some (Inr (s, tr))"
    using feed_total [OF ok w] by blast
  have gem: "waiting mid \<le> total mid" by (simp add: cm)
  have prm: "parse deps mid (take (waiting mid) (concat (pending mid)))
      = Inr (mid\<lparr>waiting := 24, header := None\<rparr>, [Error (InvalidChecksum got)])"
    unfolding cm
    by (simp add: parse_bad_checksum [OF cm(4) h(6) bad(1)] H_def bad(2))
  have "\<exists>s1. loop deps mid
      (Step (header mid = None) (take (waiting mid) (concat (pending mid)))
         (header mid = None \<and> header (mid\<lparr>waiting := 24, header := None\<rparr>) \<noteq> None)
         [Error (InvalidChecksum got)] # tr) s1 \<and> similar s s1"
    by (rule loop_one_step [OF ok wm gem prm wf_push [OF w] _ _ _ _ _ l])
       (simp_all add: cp cm)
  then obtain s1 where l1: "loop deps mid (Step False payload False [Error (InvalidChecksum got)] # tr) s1"
    and sim1: "similar s s1" by (auto simp: cm)
  have c0: "concat (pending ?st0) = hdr @ payload @ rest"
    "total ?st0 = 24 + (length payload + length rest)"
    "waiting ?st0 = 24" "header ?st0 = None" "network ?st0 = network st"
    using h(1) by (simp_all add: cp)
  have ge0: "waiting ?st0 \<le> total ?st0" by (simp add: c0)
  have le: "unat sz \<le> MAX_MESSAGE deps" using h(5,6) by simp
  have pr0: "parse deps ?st0 (take (waiting ?st0) (concat (pending ?st0)))
      = Inr (?st0\<lparr>waiting := unat sz, header := Some H\<rparr>, [])"
    unfolding c0 H_def using h(1)
    by (simp add: parse_header_accepted [OF c0(4) m h(1) _ cmdLength_terminated [OF h(1,3)] h(4) le h(7)]
        c0 h(2))
  have "\<exists>s'. loop deps ?st0
      (Step (header ?st0 = None) (take (waiting ?st0) (concat (pending ?st0)))
         (header ?st0 = None \<and> header (?st0\<lparr>waiting := unat sz, header := Some H\<rparr>) \<noteq> None)
         [] # Step False payload False [Error (InvalidChecksum got)] # tr) s' \<and> similar s1 s'"
    by (rule loop_one_step [OF ok wf_push [OF w] ge0 pr0 wm _ _ _ _ _ l1])
       (simp_all add: c0 cm h(1,5))
  then obtain s' where l': "loop deps ?st0
      (Step True hdr True [] # Step False payload False [Error (InvalidChecksum got)] # tr) s'"
    and sim2: "similar s1 s'" by (auto simp: c0 h(1))
  have sim: "similar s s'" by (rule similar_trans [OF sim1 sim2])
  have f': "feed deps st (hdr @ payload @ rest)
      = Some (Inr (s', Step True hdr True [] # Step False payload False [Error (InvalidChecksum got)] # tr))"
    by (rule loop_feed [OF l'])
  have short: "tr = [] \<and> waiting s' = 24 \<and> header s' = None
          \<and> total s' = length rest \<and> concat (pending s') = rest" if "length rest < 24"
  proof -
    have "feed deps st rest = Some (Inr (push st rest, []))"
      by (rule loop_feed [OF loop_rest_short [OF b(1,2,3) that]])
    then have e: "s = push st rest" and t: "tr = []" using f by simp_all
    have "waiting s' = waiting s" "header s' = header s" "total s' = total s"
      "concat (pending s') = concat (pending s)"
      using sim by (simp_all add: similar_def)
    then show ?thesis unfolding e by (simp add: cp t)
  qed
  show ?thesis using f f' sim short by blast
qed


theorem bad_checksum_frame_witness:
  "deps_ok (\<lparr>MAX_MESSAGE = 100, hash256 = (\<lambda>d. replicate 32 (of_nat (length d))),
             fromRaw = (\<lambda>c d. (Inr (c, d) :: unit + string \<times> byte list))\<rparr>)
   \<and> length ([1, 2, 3, 4, 112, 105, 110, 103, 0, 0, 0, 0, 0, 0, 0, 0, 2, 0, 0, 0, 3, 2, 2, 2] :: byte list) = 24
   \<and> readUInt32LE [1, 2, 3, 4, 112, 105, 110, 103, 0, 0, 0, 0, 0, 0, 0, 0, 2, 0, 0, 0, 3, 2, 2, 2] 0 = Inr (magic \<lparr>magic = 0x04030201, pow_limit = 0, keccakPow_limit = 0\<rparr>)
   \<and> (\<exists>j<12. ([1, 2, 3, 4, 112, 105, 110, 103, 0, 0, 0, 0, 0, 0, 0, 0, 2, 0, 0, 0, 3, 2, 2, 2] :: byte list) ! (4 + j) = 0)
   \<and> readUInt32LE [1, 2, 3, 4, 112, 105, 110, 103, 0, 0, 0, 0, 0, 0, 0, 0, 2, 0, 0, 0, 3, 2, 2, 2] 16 = Inr 2
   \<and> readUInt32LE [1, 2, 3, 4, 112, 105, 110, 103, 0, 0, 0, 0, 0, 0, 0, 0, 2, 0, 0, 0, 3, 2, 2, 2] 20 = Inr 0x02020203
   \<and> readUInt32LE (hash256 (\<lparr>MAX_MESSAGE = 100, hash256 = (\<lambda>d. replicate 32 (of_nat (length d))),
             fromRaw = (\<lambda>c d. (Inr (c, d) :: unit + string \<times> byte list))\<rparr>) [7, 7]) 0 = Inr 0x02020202
   \<and> (\<exists>s'. feed (\<lparr>MAX_MESSAGE = 100, hash256 = (\<lambda>d. replicate 32 (of_nat (length d))),
             fromRaw = (\<lambda>c d. (Inr (c, d) :: unit + string \<times> byte list))\<rparr>) (Parser \<lparr>magic = 0x04030201, pow_limit = 0, keccakPow_limit = 0\<rparr>) ([1, 2, 3, 4, 112, 105, 110, 103, 0, 0, 0, 0, 0, 0, 0, 0, 2, 0, 0, 0, 3, 2, 2, 2] @ [7, 7] @ [9])
             = Some (Inr (s', [Step True [1, 2, 3, 4, 112, 105, 110, 103, 0, 0, 0, 0, 0, 0, 0, 0, 2, 0, 0, 0, 3, 2, 2, 2] True [],
                          Step False [7, 7] False [Error (InvalidChecksum 0x02020202)]]))
          \<and> waiting s' = 24 \<and> header s' = None \<and> total s' = 1
          \<and> concat (pending s') = [9])"
proof -
  let ?D = "(\<lparr>MAX_MESSAGE = 100, hash256 = (\<lambda>d. replicate 32 (of_nat (length d))),
             fromRaw = (\<lambda>c d. (Inr (c, d) :: unit + string \<times> byte list))\<rparr>)"
  let ?N = "\<lparr>magic = 0x04030201, pow_limit = 0, keccakPow_limit = 0\<rparr>"
  let ?H = "[1, 2, 3, 4, 112, 105, 110, 103, 0, 0, 0, 0, 0, 0, 0, 0, 2, 0, 0, 0, 3, 2, 2, 2] :: byte list"
  have ok: "deps_ok ?D" by (simp add: deps_ok_def)
  have b: "header (Parser ?N) = None" "waiting (Parser ?N) = 24" "total (Parser ?N) = 0"
    "concat (pending (Parser ?N)) = []"
    by (simp_all add: Parser_def)
  have h1: "length ?H = 24" by simp
  have h2: "readUInt32LE ?H 0 = Inr (magic (network (Parser ?N)))"
    by (simp add: readUInt32LE_def Parser_def)
  have h3: "\<exists>j<12. ?H ! (4 + j) = 0" by (rule exI [of _ 4]) simp
  have h4: "readUInt32LE ?H 16 = Inr 2" by (simp add: readUInt32LE_def)
  have h5: "unat (2 :: u32) = length [7, 7 :: byte]" by simp
  have h6: "length [7, 7 :: byte] \<le> MAX_MESSAGE ?D" by simp
  have h7: "readUInt32LE ?H 20 = Inr 0x02020203" by (simp add: readUInt32LE_def)
  have g1: "readUInt32LE (hash256 ?D [7, 7]) 0 = Inr 0x02020202"
    by code_simp
  have g2: "(0x02020202 :: u32) \<noteq> 0x02020203" by simp
  show ?thesis
    using bad_checksum_frame [OF ok b h1 h2 h3 h4 h5 h6 h7 g1 g2, of "[9]"]
      ok h1 h2 h3 h4 h7 g1
    by (auto simp: Parser_def)
qed

theorem oversize_header_witness:
  "deps_ok (\<lparr>MAX_MESSAGE = 100, hash256 = (\<lambda>d. replicate 32 (of_nat (length d))),
             fromRaw = (\<lambda>c d. (Inr (c, d) :: unit + string \<times> byte list))\<rparr>)
   \<and> length ([1, 2, 3, 4, 112, 105, 110, 103, 0, 0, 0, 0, 0, 0, 0, 0, 101, 0, 0, 0, 3, 2, 2, 2] :: byte list) = 24
   \<and> readUInt32LE [1, 2, 3, 4, 112, 105, 110, 103, 0, 0, 0, 0, 0, 0, 0, 0, 101, 0, 0, 0, 3, 2, 2, 2] 0 = Inr (magic \<lparr>magic = 0x04030201, pow_limit = 0, keccakPow_limit = 0\<rparr>)
   \<and> (\<exists>j<12. ([1, 2, 3, 4, 112, 105, 110, 103, 0, 0, 0, 0, 0, 0, 0, 0, 101, 0, 0, 0, 3, 2, 2, 2] :: byte list) ! (4 + j) = 0)
   \<and> readUInt32LE [1, 2, 3, 4, 112, 105, 110, 103, 0, 0, 0, 0, 0, 0, 0, 0, 101, 0, 0, 0, 3, 2, 2, 2] 16 = Inr 101
   \<and> MAX_MESSAGE (\<lparr>MAX_MESSAGE = 100, hash256 = (\<lambda>d. replicate 32 (of_nat (length d))),
             fromRaw = (\<lambda>c d. (Inr (c, d) :: unit + string \<times> byte list))\<rparr>) < unat (101 :: u32)
   \<and> (\<exists>s'. feed (\<lparr>MAX_MESSAGE = 100, hash256 = (\<lambda>d. replicate 32 (of_nat (length d))),
             fromRaw = (\<lambda>c d. (Inr (c, d) :: unit + string \<times> byte list))\<rparr>) (Parser \<lparr>magic = 0x04030201, pow_limit = 0, keccakPow_limit = 0\<rparr>) ([1, 2, 3, 4, 112, 105, 110, 103, 0, 0, 0, 0, 0, 0, 0, 0, 101, 0, 0, 0, 3, 2, 2, 2] @ [7, 7, 9])
             = Some (Inr (s', [Step True [1, 2, 3, 4, 112, 105, 110, 103, 0, 0, 0, 0, 0, 0, 0, 0, 101, 0, 0, 0, 3, 2, 2, 2] False [Error (OversizePacket 101)]]))
          \<and> waiting s' = 24 \<and> header s' = None \<and> total s' = 3
          \<and> concat (pending s') = [7, 7, 9])"
proof -
  let ?D = "(\<lparr>MAX_MESSAGE = 100, hash256 = (\<lambda>d. replicate 32 (of_nat (length d))),
             fromRaw = (\<lambda>c d. (Inr (c, d) :: unit + string \<times> byte list))\<rparr>)"
  let ?N = "\<lparr>magic = 0x04030201, pow_limit = 0, keccakPow_limit = 0\<rparr>"
  let ?H = "[1, 2, 3, 4, 112, 105, 110, 103, 0, 0, 0, 0, 0, 0, 0, 0, 101, 0, 0, 0, 3, 2, 2, 2] :: byte list"
  have ok: "deps_ok ?D" by (simp add: deps_ok_def)
  have b: "header (Parser ?N) = None" "waiting (Parser ?N) = 24" "total (Parser ?N) = 0"
    "concat (pending (Parser ?N)) = []"
    by (simp_all add: Parser_def)
  have h1: "length ?H = 24" by simp
  have h2: "readUInt32LE ?H 0 = Inr (magic (network (Parser ?N)))"
    by (simp add: readUInt32LE_def Parser_def)
  have h3: "\<exists>j<12. ?H ! (4 + j) = 0" by (rule exI [of _ 4]) simp
  have h4: "readUInt32LE ?H 16 = Inr 101" by (simp add: readUInt32LE_def)
  have big: "MAX_MESSAGE ?D < unat (101 :: u32)" by simp
  show ?thesis
    using oversize_header [OF ok b h1 h2 h3 h4 big, of "[7, 7, 9]"]
      ok h1 h2 h3 h4 big
    by (auto simp: Parser_def)
qed

end
